theory Spec2Isabelle
  imports Main "HOL-Library.Word"
begin

unbundle bit_operations_syntax

section \<open>The bounded MPMC queue of include/dro/mpmc-queue.hpp\<close>

text \<open>
  The queue is embedded with explicit state passing. \<open>std::size_t\<close> is a 64-bit word, so
  every counter wraps as the machine's does. A member \<open>x_\<close> of the source is the
  field \<open>x_m\<close>. The element type \<open>T\<close> is a type variable; what the code needs
  from \<open>T\<close> is passed in: its value-initialised object \<open>T{}\<close> to the constructor, and
  to the consumer the state that \<open>T\<close>'s assignment \<open>val = slot.return_value()\<close> leaves
  the source object in (the identity for a type that is copied, the moved-from
  state for a type that is moved).

  A call is executed as one unit against the shared state. The retry loops of the
  non-blocking calls keep the local observation of the counter apart from the shared
  counter, so that the paths taken after another thread has moved the counter are part
  of the model. A blocking call whose slot is not in the awaited phase spins for ever
  when no other thread runs: its result is \<open>None\<close>.
\<close>

type_synonym size_t = "64 word"

record 'a Slot =
  data_m :: 'a
  turn :: size_t

record 'a MPMC_Queue =
  capacity_m :: size_t
  buffer_m :: "'a Slot list"
  tail_m :: size_t
  head_m :: size_t

datatype error = Logic_Error string | Bad_Alloc

definition MAX_SIZE_T :: size_t where
  "MAX_SIZE_T = 18446744073709551615"

subsection \<open>Slot\<close>

definition assign_value :: "'a Slot \<Rightarrow> 'a \<Rightarrow> 'a Slot" where
  "assign_value s val = s\<lparr>data_m := val\<rparr>"

text \<open>\<open>return_value\<close> hands out a reference to \<open>data_m\<close>; the slot after the call is its
  second component.\<close>

definition return_value :: "'a Slot \<Rightarrow> 'a \<times> 'a Slot" where
  "return_value s = (data_m s, s)"

text \<open>The number of times \<open>data_.~T()\<close> runs on a slot's element is counted.
  \<open>destroy\<close> runs it once.\<close>

definition destroy :: "nat \<Rightarrow> nat" where
  "destroy runs = runs + 1"

text \<open>\<open>~Slot()\<close>: the body calls \<open>destroy()\<close> when \<open>turn & 1\<close> is set; after the body
  the members are destroyed, \<open>data_m\<close> among them, which runs \<open>~T()\<close> on it.\<close>

definition Slot_dtor :: "'a Slot \<Rightarrow> nat" where
  "Slot_dtor s =
     (let body = (if turn s AND 1 \<noteq> 0 then destroy 0 else 0)
      in body + 1)"

subsection \<open>Construction and teardown\<close>

definition queue_turn :: "'a MPMC_Queue \<Rightarrow> size_t \<Rightarrow> size_t" where
  "queue_turn q index = index div capacity_m q"

text \<open>The allocator is a parameter of the queue: \<open>allocate n\<close> tells whether
  \<open>allocator_.allocate(n)\<close> returns storage for \<open>n\<close> slots; when it does not, it throws
  \<open>std::bad_alloc\<close> (or \<open>std::bad_array_new_length\<close>, which is derived from it), and so does
  the constructor. The default \<open>std::allocator\<close> refuses every \<open>n\<close> above
  \<open>SIZE_MAX / sizeof(Slot<T>)\<close>; \<open>std_allocator\<close> is that allocator with all the storage
  below this bound to give. A slot is aligned to the cache line, so its size is at least
  \<open>cacheLineSize\<close>, 64.\<close>

definition std_allocator :: "size_t \<Rightarrow> size_t \<Rightarrow> bool" where
  "std_allocator slot_size n = (\<not> MAX_SIZE_T div slot_size < n)"

text \<open>The constructor; the slots are value-initialised.\<close>

definition MPMC_Queue_ctor ::
  "(size_t \<Rightarrow> bool) \<Rightarrow> 'a \<Rightarrow> size_t \<Rightarrow> error + 'a MPMC_Queue" where
  "MPMC_Queue_ctor allocate dflt capacity =
     (if capacity < 1 then Inl (Logic_Error ''Capacity must be positive'')
      else
        let cap = (if capacity = MAX_SIZE_T then MAX_SIZE_T - 1 else capacity)
        in if \<not> allocate (cap + 1) then Inl Bad_Alloc
           else Inr \<lparr>capacity_m = cap,
                     buffer_m = replicate (unat cap) \<lparr>data_m = dflt, turn = 0\<rparr>,
                     tail_m = 0,
                     head_m = 0\<rparr>)"

text \<open>\<open>~MPMC_Queue()\<close> runs \<open>~Slot()\<close> on the slots \<open>0 .. capacity_m - 1\<close>; the result lists,
  slot by slot, how often the element's destructor ran.\<close>

definition MPMC_Queue_dtor :: "'a MPMC_Queue \<Rightarrow> nat list" where
  "MPMC_Queue_dtor q = map Slot_dtor (take (unat (capacity_m q)) (buffer_m q))"

subsection \<open>Producers\<close>

text \<open>The write/publish path shared by \<open>emplace\<close> and \<open>try_emplace\<close>:
  \<open>slot.assign_value(args); slot.turn.store(turn(head) * 2 + 1)\<close>.\<close>

definition publish :: "'a MPMC_Queue \<Rightarrow> size_t \<Rightarrow> 'a \<Rightarrow> 'a MPMC_Queue" where
  "publish q head val =
     (let i = unat (head mod capacity_m q);
          slot = assign_value (buffer_m q ! i) val;
          slot = slot\<lparr>turn := queue_turn q head * 2 + 1\<rparr>
      in q\<lparr>buffer_m := (buffer_m q)[i := slot]\<rparr>)"

text \<open>The busy-wait \<open>while (expected != slot.turn.load()) {}\<close> of the blocking calls.\<close>

partial_function (option) spin :: "'a MPMC_Queue \<Rightarrow> nat \<Rightarrow> size_t \<Rightarrow> unit option" where
  "spin q i expected =
     (if expected \<noteq> turn (buffer_m q ! i) then spin q i expected else Some ())"

definition emplace :: "'a MPMC_Queue \<Rightarrow> 'a \<Rightarrow> 'a MPMC_Queue option" where
  "emplace q val =
     (let head = head_m q;
          q = q\<lparr>head_m := head + 1\<rparr>;
          i = unat (head mod capacity_m q)
      in case spin q i (queue_turn q head * 2) of
           None \<Rightarrow> None
         | Some _ \<Rightarrow> Some (publish q head val))"

text \<open>One pass of the loop of \<open>try_emplace\<close>, with the local \<open>head\<close> it works on: the call
  returns, or goes round again with a new local \<open>head\<close>.\<close>

datatype 'r pass = Return 'r | Again size_t

definition try_emplace_pass ::
  "'a MPMC_Queue \<Rightarrow> size_t \<Rightarrow> 'a \<Rightarrow> (bool \<times> 'a MPMC_Queue) pass" where
  "try_emplace_pass q head val =
     (let slot = buffer_m q ! unat (head mod capacity_m q) in
      if queue_turn q head * 2 = turn slot then
        (if head_m q = head
         then Return (True, publish (q\<lparr>head_m := head + 1\<rparr>) head val)
         else Again (head_m q))
      else
        (let prevHead = head;
             head = head_m q
         in if head = prevHead then Return (False, q) else Again head))"

function try_emplace_loop ::
  "'a MPMC_Queue \<Rightarrow> size_t \<Rightarrow> 'a \<Rightarrow> bool \<times> 'a MPMC_Queue" where
  "try_emplace_loop q head val =
     (case try_emplace_pass q head val of
        Return r \<Rightarrow> r
      | Again head' \<Rightarrow> try_emplace_loop q head' val)"
  by pat_completeness auto
termination
  by (relation "measure (\<lambda>(q, head, val). if head = head_m q then 0 else 1)")
     (auto simp: try_emplace_pass_def Let_def split: if_splits)

definition try_emplace :: "'a MPMC_Queue \<Rightarrow> 'a \<Rightarrow> bool \<times> 'a MPMC_Queue" where
  "try_emplace q val = try_emplace_loop q (head_m q) val"

definition push :: "'a MPMC_Queue \<Rightarrow> 'a \<Rightarrow> 'a MPMC_Queue option" where
  "push q val = emplace q val"

definition try_push :: "'a MPMC_Queue \<Rightarrow> 'a \<Rightarrow> bool \<times> 'a MPMC_Queue" where
  "try_push q val = try_emplace q val"

subsection \<open>Consumers\<close>

text \<open>The extract/release path shared by \<open>pop\<close> and \<open>try_pop\<close>:
  \<open>val = slot.return_value(); slot.turn.store(turn(tail) * 2 + 2)\<close>. The assignment
  leaves \<open>moved_from\<close> of the element in the slot.\<close>

definition release ::
  "('a \<Rightarrow> 'a) \<Rightarrow> 'a MPMC_Queue \<Rightarrow> size_t \<Rightarrow> 'a MPMC_Queue \<times> 'a" where
  "release moved_from q tail =
     (let i = unat (tail mod capacity_m q);
          (val, slot) = return_value (buffer_m q ! i);
          slot = slot\<lparr>data_m := moved_from (data_m slot)\<rparr>;
          slot = slot\<lparr>turn := queue_turn q tail * 2 + 2\<rparr>
      in (q\<lparr>buffer_m := (buffer_m q)[i := slot]\<rparr>, val))"

definition pop :: "('a \<Rightarrow> 'a) \<Rightarrow> 'a MPMC_Queue \<Rightarrow> 'a \<Rightarrow> ('a MPMC_Queue \<times> 'a) option" where
  "pop moved_from q val =
     (let tail = tail_m q;
          q = q\<lparr>tail_m := tail + 1\<rparr>;
          i = unat (tail mod capacity_m q)
      in case spin q i (queue_turn q tail * 2 + 1) of
           None \<Rightarrow> None
         | Some _ \<Rightarrow> Some (release moved_from q tail))"

definition try_pop_pass ::
  "('a \<Rightarrow> 'a) \<Rightarrow> 'a MPMC_Queue \<Rightarrow> size_t \<Rightarrow> 'a \<Rightarrow> (bool \<times> 'a MPMC_Queue \<times> 'a) pass" where
  "try_pop_pass moved_from q tail val =
     (let slot = buffer_m q ! unat (tail mod capacity_m q) in
      if queue_turn q tail * 2 + 1 = turn slot then
        (if tail_m q = tail
         then Return (True, release moved_from (q\<lparr>tail_m := tail + 1\<rparr>) tail)
         else Again (tail_m q))
      else
        (let prevTail = tail;
             tail = tail_m q
         in if tail = prevTail then Return (False, q, val) else Again tail))"

function try_pop_loop ::
  "('a \<Rightarrow> 'a) \<Rightarrow> 'a MPMC_Queue \<Rightarrow> size_t \<Rightarrow> 'a \<Rightarrow> bool \<times> 'a MPMC_Queue \<times> 'a" where
  "try_pop_loop moved_from q tail val =
     (case try_pop_pass moved_from q tail val of
        Return r \<Rightarrow> r
      | Again tail' \<Rightarrow> try_pop_loop moved_from q tail' val)"
  by pat_completeness auto
termination
  by (relation "measure (\<lambda>(m, q, tail, val). if tail = tail_m q then 0 else 1)")
     (auto simp: try_pop_pass_def Let_def split: if_splits)

definition try_pop :: "('a \<Rightarrow> 'a) \<Rightarrow> 'a MPMC_Queue \<Rightarrow> 'a \<Rightarrow> bool \<times> 'a MPMC_Queue \<times> 'a" where
  "try_pop moved_from q val = try_pop_loop moved_from q (tail_m q) val"

subsection \<open>Observers\<close>

text \<open>\<open>std::abs\<close> on a \<open>std::ptrdiff_t\<close>, kept as the 64-bit pattern.\<close>

definition abs_ptrdiff :: "size_t \<Rightarrow> size_t" where
  "abs_ptrdiff x = (if sint x < 0 then - x else x)"

text \<open>\<open>size()\<close>: the comparison is between a \<open>size_t\<close> and a \<open>ptrdiff_t\<close>, so it is made
  unsigned; the result is read as a \<open>std::ptrdiff_t\<close>.\<close>

definition size_queue :: "'a MPMC_Queue \<Rightarrow> int" where
  "size_queue q =
     (let tail = tail_m q;
          head = head_m q;
          maxToTail = MAX_SIZE_T - tail;
          headToTail = head - tail
      in sint (if maxToTail < abs_ptrdiff headToTail then maxToTail + head else headToTail))"

definition empty_queue :: "'a MPMC_Queue \<Rightarrow> bool" where
  "empty_queue q = (size_queue q \<le> 0)"

definition capacity :: "'a MPMC_Queue \<Rightarrow> size_t" where
  "capacity q = capacity_m q"

subsection \<open>Sequences of calls\<close>

text \<open>A client issues calls one after the other. It keeps the variable \<open>out\<close> it hands to
  \<open>pop\<close> and \<open>try_pop\<close>, and a log of the values the queue accepted and of the values
  the queue returned. A blocking call that never returns ends the run with \<open>None\<close>.\<close>

datatype 'a call = Emplace 'a | Try_Emplace 'a | Push 'a | Try_Push 'a | Pop | Try_Pop

record 'a client =
  queue :: "'a MPMC_Queue"
  out :: 'a
  pushed :: "'a list"
  popped :: "'a list"

definition fresh :: "'a MPMC_Queue \<Rightarrow> 'a \<Rightarrow> 'a client" where
  "fresh q t = \<lparr>queue = q, out = t, pushed = [], popped = []\<rparr>"

definition produced :: "'a client \<Rightarrow> 'a \<Rightarrow> 'a MPMC_Queue option \<Rightarrow> 'a client option" where
  "produced c v r =
     (case r of
        None \<Rightarrow> None
      | Some q \<Rightarrow> Some (c\<lparr>queue := q, pushed := pushed c @ [v]\<rparr>))"

definition try_produced :: "'a client \<Rightarrow> 'a \<Rightarrow> bool \<times> 'a MPMC_Queue \<Rightarrow> 'a client option" where
  "try_produced c v r =
     (case r of
        (ok, q) \<Rightarrow> Some (c\<lparr>queue := q, pushed := (if ok then pushed c @ [v] else pushed c)\<rparr>))"

fun call_step :: "('a \<Rightarrow> 'a) \<Rightarrow> 'a client \<Rightarrow> 'a call \<Rightarrow> 'a client option" where
  "call_step moved_from c (Emplace v) = produced c v (emplace (queue c) v)"
| "call_step moved_from c (Push v) = produced c v (push (queue c) v)"
| "call_step moved_from c (Try_Emplace v) = try_produced c v (try_emplace (queue c) v)"
| "call_step moved_from c (Try_Push v) = try_produced c v (try_push (queue c) v)"
| "call_step moved_from c Pop =
     (case pop moved_from (queue c) (out c) of
        None \<Rightarrow> None
      | Some (q, v) \<Rightarrow> Some (c\<lparr>queue := q, out := v, popped := popped c @ [v]\<rparr>))"
| "call_step moved_from c Try_Pop =
     (case try_pop moved_from (queue c) (out c) of
        (ok, q, v) \<Rightarrow>
          Some (c\<lparr>queue := q, out := v,
                  popped := (if ok then popped c @ [v] else popped c)\<rparr>))"

fun run :: "('a \<Rightarrow> 'a) \<Rightarrow> 'a client \<Rightarrow> 'a call list \<Rightarrow> 'a client option" where
  "run moved_from c [] = Some c"
| "run moved_from c (x # xs) =
     (case call_step moved_from c x of
        None \<Rightarrow> None
      | Some c' \<Rightarrow> run moved_from c' xs)"

subsection \<open>Phases and the state of a run\<close>

text \<open>Whether the slot that position \<open>p\<close> maps to is in the phase a producer, or a
  consumer, at \<open>p\<close> waits for.\<close>

definition writable :: "'a MPMC_Queue \<Rightarrow> size_t \<Rightarrow> bool" where
  "writable q p = (queue_turn q p * 2 = turn (buffer_m q ! unat (p mod capacity_m q)))"

definition readable :: "'a MPMC_Queue \<Rightarrow> size_t \<Rightarrow> bool" where
  "readable q p = (queue_turn q p * 2 + 1 = turn (buffer_m q ! unat (p mod capacity_m q)))"

text \<open>What a run keeps true. With \<open>H\<close> values accepted and \<open>T\<close> values returned, the
  counters are \<open>H\<close> and \<open>T\<close> modulo \<open>2 ^ 64\<close>, at most \<open>capacity_m\<close> values are in the queue,
  and position \<open>p\<close> of the window \<open>T \<le> p < T + capacity_m\<close> finds its slot in round
  \<open>p div capacity_m\<close>, full with the \<open>p\<close>-th accepted value when \<open>p < H\<close> and empty
  otherwise. A capacity that does not divide \<open>2 ^ 64\<close> lets no position beyond
  \<open>2 ^ 64\<close> be claimed.\<close>

definition consistent :: "'a client \<Rightarrow> bool" where
  "consistent c =
     (let q = queue c;
          C = unat (capacity_m q);
          H = length (pushed c);
          T = length (popped c)
      in 1 \<le> C \<and> length (buffer_m q) = C \<and>
         T \<le> H \<and> H \<le> T + C \<and> (C \<le> 2 \<or> H \<le> 2 ^ 64) \<and>
         head_m q = of_nat H \<and> tail_m q = of_nat T \<and>
         popped c = take T (pushed c) \<and>
         (\<forall>p. T \<le> p \<and> p < T + C \<longrightarrow>
            turn (buffer_m q ! (p mod C)) = of_nat (2 * (p div C) + (if p < H then 1 else 0)) \<and>
            (p < H \<longrightarrow> data_m (buffer_m q ! (p mod C)) = pushed c ! p)))"

text \<open>The values a list of calls passes to \<open>push\<close> and \<open>emplace\<close>, and whether all its
  producers are of this blocking kind.\<close>

definition passed :: "'a call list \<Rightarrow> 'a list" where
  "passed calls =
     concat (map (\<lambda>x. case x of Emplace v \<Rightarrow> [v] | Push v \<Rightarrow> [v] | _ \<Rightarrow> []) calls)"

definition blocking_producers :: "'a call list \<Rightarrow> bool" where
  "blocking_producers calls =
     list_all (\<lambda>x. case x of Try_Emplace v \<Rightarrow> False | Try_Push v \<Rightarrow> False | _ \<Rightarrow> True) calls"

text \<open>How many values a list of calls, made one after the other, has had accepted and has
  had returned, starting from counts \<open>(H, T)\<close> on a queue of capacity \<open>C\<close>. The result is
  \<open>None\<close> when the list makes a blocking call that cannot complete with no other thread
  running: a \<open>pop\<close> on an empty queue, a \<open>push\<close> on a full one, or, on a capacity of 3 or
  more, a \<open>push\<close> after \<open>2 ^ 64\<close> values have been accepted.\<close>

definition has_room :: "nat \<Rightarrow> nat \<times> nat \<Rightarrow> bool" where
  "has_room C n = (fst n < snd n + C \<and> (C \<le> 2 \<or> fst n < 2 ^ 64))"

fun count_step :: "nat \<Rightarrow> nat \<times> nat \<Rightarrow> 'a call \<Rightarrow> (nat \<times> nat) option" where
  "count_step C (H, T) (Emplace v) = (if has_room C (H, T) then Some (Suc H, T) else None)"
| "count_step C (H, T) (Push v) = (if has_room C (H, T) then Some (Suc H, T) else None)"
| "count_step C (H, T) (Try_Emplace v) = Some (if has_room C (H, T) then (Suc H, T) else (H, T))"
| "count_step C (H, T) (Try_Push v) = Some (if has_room C (H, T) then (Suc H, T) else (H, T))"
| "count_step C (H, T) Pop = (if T < H then Some (H, Suc T) else None)"
| "count_step C (H, T) Try_Pop = Some (if T < H then (H, Suc T) else (H, T))"

fun count_run :: "nat \<Rightarrow> nat \<times> nat \<Rightarrow> 'a call list \<Rightarrow> (nat \<times> nat) option" where
  "count_run C n [] = Some n"
| "count_run C n (x # xs) =
     (case count_step C n x of
        None \<Rightarrow> None
      | Some n' \<Rightarrow> count_run C n' xs)"

section \<open>The calls in closed form\<close>

lemma MAX_SIZE_T_minus_one: "MAX_SIZE_T = - 1"
  by (simp add: MAX_SIZE_T_def)

lemma spin_Some: "spin q i expected = Some y \<Longrightarrow> expected = turn (buffer_m q ! i)"
  by (erule spin.raw_induct [where P = "\<lambda>q i e y. e = turn (buffer_m q ! i)", rotated])
     (simp split: if_splits)

lemma spin_stuck: "expected \<noteq> turn (buffer_m q ! i) \<Longrightarrow> spin q i expected = None"
  using spin_Some [of q i expected] by (cases "spin q i expected") auto

lemma spin_eq:
  "spin q i expected = (if expected = turn (buffer_m q ! i) then Some () else None)"
proof (cases "expected = turn (buffer_m q ! i)")
  case True
  have "spin q i (turn (buffer_m q ! i)) = Some ()"
    by (subst spin.simps) simp
  with True show ?thesis by simp
next
  case False
  then show ?thesis by (simp add: spin_stuck)
qed

lemma try_emplace_pass_current:
  "try_emplace_pass q (head_m q) v =
     (if writable q (head_m q)
      then Return (True, publish (q\<lparr>head_m := head_m q + 1\<rparr>) (head_m q) v)
      else Return (False, q))"
  unfolding try_emplace_pass_def writable_def Let_def by simp

lemma try_emplace_pass_stale:
  "h \<noteq> head_m q \<Longrightarrow> try_emplace_pass q h v = Again (head_m q)"
  unfolding try_emplace_pass_def Let_def by auto

lemma try_emplace_loop_current:
  "try_emplace_loop q (head_m q) v =
     (if writable q (head_m q)
      then (True, publish (q\<lparr>head_m := head_m q + 1\<rparr>) (head_m q) v)
      else (False, q))"
  by (subst try_emplace_loop.simps, subst try_emplace_pass_current) simp

lemma try_emplace_loop_eq:
  "try_emplace_loop q h v =
     (if writable q (head_m q)
      then (True, publish (q\<lparr>head_m := head_m q + 1\<rparr>) (head_m q) v)
      else (False, q))"
proof (cases "h = head_m q")
  case True
  then show ?thesis by (simp only: try_emplace_loop_current)
next
  case False
  have "try_emplace_loop q h v = try_emplace_loop q (head_m q) v"
    by (subst try_emplace_loop.simps) (simp add: try_emplace_pass_stale [OF False])
  then show ?thesis by (simp only: try_emplace_loop_current)
qed

lemma try_emplace_eq:
  "try_emplace q v =
     (if writable q (head_m q)
      then (True, publish (q\<lparr>head_m := head_m q + 1\<rparr>) (head_m q) v)
      else (False, q))"
  unfolding try_emplace_def by (rule try_emplace_loop_eq)

lemma emplace_eq:
  "emplace q v =
     (if writable q (head_m q)
      then Some (publish (q\<lparr>head_m := head_m q + 1\<rparr>) (head_m q) v)
      else None)"
  by (simp add: emplace_def spin_eq queue_turn_def writable_def Let_def)

lemma try_pop_pass_current:
  "try_pop_pass mv q (tail_m q) v =
     (if readable q (tail_m q)
      then Return (True, release mv (q\<lparr>tail_m := tail_m q + 1\<rparr>) (tail_m q))
      else Return (False, q, v))"
  unfolding try_pop_pass_def readable_def Let_def by simp

lemma try_pop_pass_stale:
  "t \<noteq> tail_m q \<Longrightarrow> try_pop_pass mv q t v = Again (tail_m q)"
  unfolding try_pop_pass_def Let_def by auto

lemma try_pop_loop_current:
  "try_pop_loop mv q (tail_m q) v =
     (if readable q (tail_m q)
      then (True, release mv (q\<lparr>tail_m := tail_m q + 1\<rparr>) (tail_m q))
      else (False, q, v))"
  by (subst try_pop_loop.simps, subst try_pop_pass_current) simp

lemma try_pop_loop_eq:
  "try_pop_loop mv q t v =
     (if readable q (tail_m q)
      then (True, release mv (q\<lparr>tail_m := tail_m q + 1\<rparr>) (tail_m q))
      else (False, q, v))"
proof (cases "t = tail_m q")
  case True
  then show ?thesis by (simp only: try_pop_loop_current)
next
  case False
  have "try_pop_loop mv q t v = try_pop_loop mv q (tail_m q) v"
    by (subst try_pop_loop.simps) (simp add: try_pop_pass_stale [OF False])
  then show ?thesis by (simp only: try_pop_loop_current)
qed

lemma try_pop_eq:
  "try_pop mv q v =
     (if readable q (tail_m q)
      then (True, release mv (q\<lparr>tail_m := tail_m q + 1\<rparr>) (tail_m q))
      else (False, q, v))"
  unfolding try_pop_def by (rule try_pop_loop_eq)

lemma pop_eq:
  "pop mv q v =
     (if readable q (tail_m q)
      then Some (release mv (q\<lparr>tail_m := tail_m q + 1\<rparr>) (tail_m q))
      else None)"
  by (simp add: pop_def spin_eq queue_turn_def readable_def Let_def)

lemma Slot_overwrite: "(s :: 'a Slot)\<lparr>data_m := v, turn := t\<rparr> = \<lparr>data_m = v, turn = t\<rparr>"
  by (cases s) simp

lemma publish_fields:
  "capacity_m (publish q p v) = capacity_m q"
  "head_m (publish q p v) = head_m q"
  "tail_m (publish q p v) = tail_m q"
  "buffer_m (publish q p v) =
     (buffer_m q)[unat (p mod capacity_m q) :=
        \<lparr>data_m = v, turn = p div capacity_m q * 2 + 1\<rparr>]"
  by (simp_all add: publish_def assign_value_def queue_turn_def Let_def Slot_overwrite)

lemma release_fields:
  "capacity_m (fst (release mv q p)) = capacity_m q"
  "head_m (fst (release mv q p)) = head_m q"
  "tail_m (fst (release mv q p)) = tail_m q"
  "buffer_m (fst (release mv q p)) =
     (buffer_m q)[unat (p mod capacity_m q) :=
        \<lparr>data_m = mv (data_m (buffer_m q ! unat (p mod capacity_m q))),
         turn = p div capacity_m q * 2 + 2\<rparr>]"
  "snd (release mv q p) = data_m (buffer_m q ! unat (p mod capacity_m q))"
  by (simp_all add: release_def return_value_def queue_turn_def Let_def Slot_overwrite)

section \<open>Positions, slots and rounds in 64-bit arithmetic\<close>

lemma small_capacity_dvd: "1 \<le> C \<Longrightarrow> C \<le> 2 \<Longrightarrow> C dvd (2::nat) ^ 64"
proof -
  assume "1 \<le> C" "C \<le> 2"
  then have "C = 1 \<or> C = 2" by arith
  then show ?thesis by auto
qed

lemma pos_index:
  fixes cap :: "64 word"
  assumes "1 \<le> unat cap" "unat cap \<le> 2 \<or> P < 2 ^ 64"
  shows "unat ((of_nat P :: 64 word) mod cap) = P mod unat cap"
proof (cases "P < 2 ^ 64")
  case True
  then show ?thesis by (simp add: unat_mod unat_of_nat)
next
  case False
  with assms have "unat cap \<le> 2" by simp
  with assms have "unat cap dvd (2::nat) ^ 64" by (intro small_capacity_dvd)
  then have "P mod 2 ^ 64 mod unat cap = P mod unat cap" by (rule mod_mod_cancel)
  then show ?thesis by (simp add: unat_mod unat_of_nat)
qed

lemma twice_div_two_mod: "(2 * ((P mod 2 ^ 64) div 2)) mod 2 ^ 64 = (2 * (P div 2)) mod (2::nat) ^ 64"
proof -
  have "P = 2 ^ 64 * (P div 2 ^ 64) + P mod 2 ^ 64" by simp
  then have "P div 2 = (2 * (2 ^ 63 * (P div 2 ^ 64)) + P mod 2 ^ 64) div 2" by simp
  also have "\<dots> = 2 ^ 63 * (P div 2 ^ 64) + (P mod 2 ^ 64) div 2" by (simp only: div_mult_self4)
  finally have "2 * (P div 2) = 2 * ((P mod 2 ^ 64) div 2) + 2 ^ 64 * (P div 2 ^ 64)" by simp
  then show ?thesis by (simp only: mod_mult_self2)
qed

lemma word_of_nat_cong:
  "a mod 2 ^ 64 = b mod 2 ^ 64 \<Longrightarrow> (of_nat a :: 64 word) = of_nat b"
  by (simp add: word_of_nat_eq_iff take_bit_eq_mod)

lemma pos_turn:
  fixes cap :: "64 word"
  assumes "1 \<le> unat cap" "unat cap \<le> 2 \<or> P < 2 ^ 64"
  shows "(of_nat P :: 64 word) div cap * 2 = of_nat (2 * (P div unat cap))"
proof -
  have "(2 * ((P mod 2 ^ 64) div unat cap)) mod 2 ^ 64 = (2 * (P div unat cap)) mod 2 ^ 64"
  proof (cases "P < 2 ^ 64")
    case True
    then show ?thesis by simp
  next
    case False
    with assms have "unat cap = 1 \<or> unat cap = 2" by arith
    then show ?thesis
    proof
      assume "unat cap = 1"
      then show ?thesis by (simp add: mod_mult_right_eq)
    next
      assume "unat cap = 2"
      then show ?thesis by (simp only: twice_div_two_mod)
    qed
  qed
  then have "(of_nat (2 * ((P mod 2 ^ 64) div unat cap)) :: 64 word) = of_nat (2 * (P div unat cap))"
    by (rule word_of_nat_cong)
  moreover have "(of_nat P :: 64 word) div cap * 2 = of_nat (2 * ((P mod 2 ^ 64) div unat cap))"
    by (subst word_arith_nat_div) (simp add: unat_of_nat)
  ultimately show ?thesis by (simp only:)
qed

lemma window_unique:
  fixes C :: nat
  assumes "T \<le> p" "p < T + C" "T \<le> p'" "p' < T + C" "p mod C = p' mod C"
  shows "p = p'"
proof -
  have "p = C * (p div C) + p mod C" "p' = C * (p' div C) + p' mod C" by simp_all
  moreover have "p div C = p' div C"
  proof (rule ccontr)
    assume "p div C \<noteq> p' div C"
    then consider "p div C < p' div C" | "p' div C < p div C" by arith
    then show False
    proof cases
      case 1
      then have "p div C + 1 \<le> p' div C" by simp
      then have "C * (p div C + 1) \<le> C * (p' div C)" by (rule mult_le_mono2)
      then have "C * (p div C) + C \<le> C * (p' div C)" by simp
      with calculation assms show False by arith
    next
      case 2
      then have "p' div C + 1 \<le> p div C" by simp
      then have "C * (p' div C + 1) \<le> C * (p div C)" by (rule mult_le_mono2)
      then have "C * (p' div C) + C \<le> C * (p div C)" by simp
      with calculation assms show False by arith
    qed
  qed
  ultimately show ?thesis using assms by simp
qed

lemma word_succ_neq: "(of_nat (Suc n) :: 64 word) \<noteq> of_nat n"
  by simp

lemma word_of_nat_nonzero: "0 < n \<Longrightarrow> n < 2 ^ 64 \<Longrightarrow> (of_nat n :: 64 word) \<noteq> 0"
  by (simp add: word_of_nat_eq_0_iff dvd_def) (metis nat_dvd_not_less dvd_def)

section \<open>Construction\<close>




section \<open>The single-slot queue of the test driver\<close>

text \<open>C4. On a queue of capacity 1 the calls \<open>try_push(1)\<close>, \<open>size()\<close>, \<open>try_push(2)\<close>,
  \<open>try_pop(t)\<close>, \<open>size()\<close>, \<open>try_pop(t)\<close> give, in this order, true, 1, false, true with
  \<open>t = 1\<close>, 0, false.\<close>

theorem single_slot_saturation:
  "allocate 2 \<Longrightarrow>
   case MPMC_Queue_ctor allocate (0::int) 1 of
     Inl e \<Rightarrow> False
   | Inr q0 \<Rightarrow>
       (let (r1, q1) = try_push q0 1;
            s1 = size_queue q1;
            (r2, q2) = try_push q1 2;
            (r3, q3, t3) = try_pop mv q2 t;
            s3 = size_queue q3;
            (r4, q4, t4) = try_pop mv q3 t3
        in (r1, s1, r2, r3, t3, s3, r4) = (True, 1, False, True, 1, 0, False))"
  by (simp add: MPMC_Queue_ctor_def std_allocator_def MAX_SIZE_T_def emplace_eq try_emplace_eq push_def
        try_push_def pop_eq try_pop_eq writable_def readable_def publish_fields release_fields
        queue_turn_def size_queue_def abs_ptrdiff_def release_def return_value_def publish_def
        assign_value_def Let_def)

theorem single_slot_saturation_witness:
  "std_allocator 64 2
   \<and> (case MPMC_Queue_ctor (std_allocator 64) (0::int) 1 of
         Inl e \<Rightarrow> False
       | Inr q0 \<Rightarrow>
           (let (r1, q1) = try_push q0 1;
                s1 = size_queue q1;
                (r2, q2) = try_push q1 2;
                (r3, q3, t3) = try_pop id q2 0;
                s3 = size_queue q3;
                (r4, q4, t4) = try_pop id q3 t3
            in (r1, s1, r2, r3, t3, s3, r4) = (True, 1, False, True, 1, 0, False)))"
proof -
  have a: "std_allocator 64 2" by (simp add: std_allocator_def MAX_SIZE_T_def)
  from single_slot_saturation [of "std_allocator 64" id 0, OF a] a show ?thesis by simp
qed

section \<open>The loop of the non-blocking producer\<close>




section \<open>Failed non-blocking calls\<close>

text \<open>C10. A \<open>try_emplace\<close> (or \<open>try_push\<close>) that returns false leaves the queue as it was:
  \<open>head\<close>, \<open>tail\<close> and every slot, generation and value. A \<open>try_pop\<close> that returns false
  leaves the queue and the caller's output variable as they were.\<close>

theorem failed_try_leaves_state:
  "(fst (try_emplace q v) = False \<longrightarrow> snd (try_emplace q v) = q)
   \<and> (fst (try_push q v) = False \<longrightarrow> snd (try_push q v) = q)
   \<and> (fst (try_pop mv q t) = False \<longrightarrow> snd (try_pop mv q t) = (q, t))"
  by (simp add: try_push_def try_emplace_eq try_pop_eq)

theorem failed_try_leaves_state_witness:
  "try_emplace \<lparr>capacity_m = 1, buffer_m = [\<lparr>data_m = 7::int, turn = 1\<rparr>], tail_m = 0, head_m = 1\<rparr> 8
     = (False, \<lparr>capacity_m = 1, buffer_m = [\<lparr>data_m = 7, turn = 1\<rparr>], tail_m = 0, head_m = 1\<rparr>)
   \<and> try_pop id \<lparr>capacity_m = 1, buffer_m = [\<lparr>data_m = 7::int, turn = 2\<rparr>], tail_m = 1, head_m = 1\<rparr> 5
     = (False, \<lparr>capacity_m = 1, buffer_m = [\<lparr>data_m = 7, turn = 2\<rparr>], tail_m = 1, head_m = 1\<rparr>, 5)"
  using failed_try_leaves_state [of "\<lparr>capacity_m = 1, buffer_m = [\<lparr>data_m = 7::int, turn = 1\<rparr>], tail_m = 0, head_m = 1\<rparr>" 8 id 5]
    failed_try_leaves_state [of "\<lparr>capacity_m = 1, buffer_m = [\<lparr>data_m = 7::int, turn = 2\<rparr>], tail_m = 1, head_m = 1\<rparr>" 8 id 5]
  by (simp add: try_emplace_eq try_pop_eq writable_def readable_def queue_turn_def prod_eq_iff)

section \<open>Extraction from a slot\<close>

text \<open>C9. \<open>return_value\<close> hands out the resident value and leaves the slot, its generation
  included, as it was; the generation the slot has after the consumer's extract/release
  path is the one the consumer stores after the extraction, \<open>turn(tail) * 2 + 2\<close>.\<close>

theorem return_value_frame:
  "return_value s = (data_m s, s)
   \<and> turn (snd (return_value s)) = turn s
   \<and> (i = unat (p mod capacity_m q) \<and> i < length (buffer_m q) \<longrightarrow>
        snd (release mv q p) = fst (return_value (buffer_m q ! i))
        \<and> turn (buffer_m (fst (release mv q p)) ! i) = queue_turn q p * 2 + 2)"
  by (simp add: return_value_def release_fields queue_turn_def)

theorem return_value_frame_witness:
  "return_value \<lparr>data_m = 7::int, turn = 1\<rparr> = (7, \<lparr>data_m = 7, turn = 1\<rparr>)
   \<and> release id \<lparr>capacity_m = 1, buffer_m = [\<lparr>data_m = 7::int, turn = 1\<rparr>], tail_m = 1, head_m = 1\<rparr> 0
       = (\<lparr>capacity_m = 1, buffer_m = [\<lparr>data_m = 7::int, turn = 2\<rparr>], tail_m = 1, head_m = 1\<rparr>, 7)"
  using return_value_frame [of "\<lparr>data_m = 7::int, turn = 1\<rparr>" 0 0
      "\<lparr>capacity_m = 1, buffer_m = [\<lparr>data_m = 7::int, turn = 1\<rparr>], tail_m = 1, head_m = 1\<rparr>" id]
  by (simp add: release_def return_value_def queue_turn_def)

section \<open>The capacity\<close>

lemma call_step_capacity:
  "call_step mv c x = Some c' \<Longrightarrow> capacity_m (queue c') = capacity_m (queue c)"
  by (cases x)
     (auto simp: produced_def try_produced_def push_def try_push_def emplace_eq try_emplace_eq
        pop_eq try_pop_eq publish_fields release_fields split_beta
        split: if_splits option.splits prod.splits)

lemma run_capacity:
  "run mv c xs = Some c' \<Longrightarrow> capacity_m (queue c') = capacity_m (queue c)"
proof (induction xs arbitrary: c)
  case Nil
  then show ?case by simp
next
  case (Cons x xs)
  then show ?case by (auto split: option.splits dest: call_step_capacity)
qed

lemma replicate_two: "replicate 2 x = [x, x]"
  by (simp add: numeral_2_eq_2)

text \<open>C8. \<open>capacity()\<close> is the capacity stored at construction, whatever calls have been
  made since; the stored capacity is the requested one, except that a request of the
  largest \<open>size_t\<close> is stored as that value less one.\<close>

theorem capacity_fixed:
  "MPMC_Queue_ctor allocate dflt requested = Inr q0 \<Longrightarrow> run mv (fresh q0 t) calls = Some c \<Longrightarrow>
     capacity (queue c) = capacity q0
     \<and> capacity q0 = (if requested = MAX_SIZE_T then MAX_SIZE_T - 1 else requested)"
  by (auto simp: capacity_def fresh_def MPMC_Queue_ctor_def Let_def
        dest!: run_capacity split: if_splits)

theorem capacity_fixed_witness:
  "MPMC_Queue_ctor (std_allocator 64) (0::int) 2
     = Inr \<lparr>capacity_m = 2, buffer_m = [\<lparr>data_m = 0, turn = 0\<rparr>, \<lparr>data_m = 0, turn = 0\<rparr>],
            tail_m = 0, head_m = 0\<rparr>
   \<and> run id (fresh \<lparr>capacity_m = 2, buffer_m = [\<lparr>data_m = 0, turn = 0\<rparr>, \<lparr>data_m = 0, turn = 0\<rparr>],
                     tail_m = 0, head_m = 0\<rparr> (0::int)) [Push 1, Try_Push 2, Pop]
     = Some \<lparr>queue = \<lparr>capacity_m = 2, buffer_m = [\<lparr>data_m = 1, turn = 2\<rparr>, \<lparr>data_m = 2, turn = 1\<rparr>],
                       tail_m = 1, head_m = 2\<rparr>,
             out = 1, pushed = [1, 2], popped = [1]\<rparr>
   \<and> capacity \<lparr>capacity_m = 2, buffer_m = [\<lparr>data_m = 1::int, turn = 2\<rparr>, \<lparr>data_m = 2, turn = 1\<rparr>],
                tail_m = 1, head_m = 2\<rparr> = 2"
proof -
  let ?q0 = "\<lparr>capacity_m = 2, buffer_m = [\<lparr>data_m = 0::int, turn = 0\<rparr>, \<lparr>data_m = 0, turn = 0\<rparr>],
               tail_m = 0, head_m = 0\<rparr>"
  let ?c = "\<lparr>queue = \<lparr>capacity_m = 2, buffer_m = [\<lparr>data_m = 1::int, turn = 2\<rparr>, \<lparr>data_m = 2, turn = 1\<rparr>],
                       tail_m = 1, head_m = 2\<rparr>,
             out = 1, pushed = [1, 2], popped = [1]\<rparr>"
  have a: "MPMC_Queue_ctor (std_allocator 64) (0::int) 2 = Inr ?q0"
    by (simp add: MPMC_Queue_ctor_def std_allocator_def MAX_SIZE_T_def replicate_two)
  have b: "run id (fresh ?q0 0) [Push 1, Try_Push 2, Pop] = Some ?c"
    by (simp add: fresh_def produced_def try_produced_def push_def try_push_def emplace_eq
          try_emplace_eq pop_eq writable_def readable_def queue_turn_def publish_fields
          release_fields split_beta)
  from capacity_fixed [OF a b] a b show ?thesis by (simp add: capacity_def)
qed

section \<open>Teardown\<close>

text \<open>C7, as stated, fails: a queue of capacity 1 that was never used has generation 0 in
  its slot, and tearing it down runs the element's destructor once on that slot, not
  zero times.\<close>

theorem teardown_even_slot_counterexample:
  "MPMC_Queue_ctor (std_allocator 64) (0::int) 1
     = Inr \<lparr>capacity_m = 1, buffer_m = [\<lparr>data_m = 0, turn = 0\<rparr>], tail_m = 0, head_m = 0\<rparr>
   \<and> turn (buffer_m \<lparr>capacity_m = 1, buffer_m = [\<lparr>data_m = 0::int, turn = 0\<rparr>],
                       tail_m = 0, head_m = 0\<rparr> ! 0) AND 1 = 0
   \<and> MPMC_Queue_dtor \<lparr>capacity_m = 1, buffer_m = [\<lparr>data_m = 0::int, turn = 0\<rparr>],
                        tail_m = 0, head_m = 0\<rparr> = [1]"
  by (simp add: MPMC_Queue_ctor_def std_allocator_def MAX_SIZE_T_def MPMC_Queue_dtor_def Slot_dtor_def)

text \<open>C7, amended. At teardown \<open>~Slot()\<close> runs once on each of the \<open>capacity_m\<close> slots.
  On a slot whose generation is even the body of \<open>~Slot()\<close> does not call \<open>destroy()\<close>, and
  the element's destructor runs exactly once, when the members of the slot are
  destroyed.\<close>

theorem teardown_even_slot:
  "length (buffer_m q) = unat (capacity_m q) \<Longrightarrow> i < unat (capacity_m q) \<Longrightarrow>
   turn (buffer_m q ! i) AND 1 = 0 \<Longrightarrow>
     length (MPMC_Queue_dtor q) = unat (capacity_m q) \<and> MPMC_Queue_dtor q ! i = 1"
  by (simp add: MPMC_Queue_dtor_def Slot_dtor_def)

theorem teardown_even_slot_witness:
  "MPMC_Queue_dtor \<lparr>capacity_m = 2, buffer_m = [\<lparr>data_m = 0::int, turn = 2\<rparr>, \<lparr>data_m = 5, turn = 0\<rparr>],
                     tail_m = 1, head_m = 1\<rparr> ! 1 = 1"
  using teardown_even_slot [of "\<lparr>capacity_m = 2, buffer_m = [\<lparr>data_m = 0::int, turn = 2\<rparr>, \<lparr>data_m = 5, turn = 0\<rparr>],
                     tail_m = 1, head_m = 1\<rparr>" 1]
  by simp

text \<open>On a slot whose generation is odd \<open>destroy()\<close> runs the destructor, and the destruction
  of the members runs it again.\<close>

lemma teardown_odd_slot: "turn s AND 1 \<noteq> 0 \<Longrightarrow> Slot_dtor s = 2"
  by (simp add: Slot_dtor_def destroy_def)

section \<open>The size after the counters have wrapped\<close>

lemma run_append:
  "run mv c (xs @ ys) = (case run mv c xs of None \<Rightarrow> None | Some c' \<Rightarrow> run mv c' ys)"
  by (induction xs arbitrary: c) (simp_all split: option.splits)

lemma concat_replicate_Suc: "concat (replicate (Suc n) xs) = concat (replicate n xs) @ xs"
  by (induction n) simp_all

lemma single_slot_round_trip:
  "run mv \<lparr>queue = \<lparr>capacity_m = 1, buffer_m = [\<lparr>data_m = d, turn = of_nat (2 * n)\<rparr>],
                     tail_m = of_nat n, head_m = of_nat n\<rparr>,
           out = t, pushed = replicate n v, popped = replicate n v\<rparr> [Push v, Pop]
   = Some \<lparr>queue = \<lparr>capacity_m = 1, buffer_m = [\<lparr>data_m = mv v, turn = of_nat (2 * Suc n)\<rparr>],
                     tail_m = of_nat (Suc n), head_m = of_nat (Suc n)\<rparr>,
           out = v, pushed = replicate (Suc n) v, popped = replicate (Suc n) v\<rparr>"
  by (simp add: produced_def push_def emplace_eq pop_eq writable_def readable_def queue_turn_def
        publish_fields release_fields split_beta replicate_append_same algebra_simps)

lemma single_slot_round_trips:
  "\<exists>d t. run mv \<lparr>queue = \<lparr>capacity_m = 1, buffer_m = [\<lparr>data_m = d0, turn = 0\<rparr>],
                     tail_m = 0, head_m = 0\<rparr>,
           out = t0, pushed = [], popped = []\<rparr> (concat (replicate n [Push v, Pop]))
   = Some \<lparr>queue = \<lparr>capacity_m = 1, buffer_m = [\<lparr>data_m = d, turn = of_nat (2 * n)\<rparr>],
                     tail_m = of_nat n, head_m = of_nat n\<rparr>,
           out = t, pushed = replicate n v, popped = replicate n v\<rparr>"
proof (induction n)
  case 0
  show ?case by simp
next
  case (Suc n)
  then obtain d t where
    "run mv \<lparr>queue = \<lparr>capacity_m = 1, buffer_m = [\<lparr>data_m = d0, turn = 0\<rparr>],
                     tail_m = 0, head_m = 0\<rparr>,
           out = t0, pushed = [], popped = []\<rparr> (concat (replicate n [Push v, Pop]))
   = Some \<lparr>queue = \<lparr>capacity_m = 1, buffer_m = [\<lparr>data_m = d, turn = of_nat (2 * n)\<rparr>],
                     tail_m = of_nat n, head_m = of_nat n\<rparr>,
           out = t, pushed = replicate n v, popped = replicate n v\<rparr>" by blast
  then show ?case
    by (simp only: concat_replicate_Suc run_append option.case single_slot_round_trip) blast
qed

text \<open>C6. After \<open>2 ^ 64 - 1\<close> rounds of \<open>push\<close> and \<open>pop\<close> on a queue of capacity 1, and one
  more \<open>push\<close>, \<open>head\<close> has wrapped to 0 and \<open>tail\<close> is the largest \<open>size_t\<close>: the unsigned
  difference is 1, within the capacity, and \<open>size()\<close> returns 0.\<close>

theorem size_after_wraparound:
  "\<exists>q0 c. MPMC_Queue_ctor (std_allocator 64) (0::int) 1 = Inr q0
     \<and> run id (fresh q0 0) (concat (replicate (2 ^ 64 - 1) [Push 7, Pop]) @ [Push 7]) = Some c
     \<and> head_m (queue c) = 0 \<and> tail_m (queue c) = MAX_SIZE_T
     \<and> head_m (queue c) - tail_m (queue c) = 1
     \<and> head_m (queue c) - tail_m (queue c) \<le> capacity_m (queue c)
     \<and> size_queue (queue c) = 0"
proof -
  let ?q0 = "\<lparr>capacity_m = 1, buffer_m = [\<lparr>data_m = 0::int, turn = 0\<rparr>], tail_m = 0, head_m = 0\<rparr>"
  let ?n = "2 ^ 64 - 1 :: nat"
  have a: "MPMC_Queue_ctor (std_allocator 64) (0::int) 1 = Inr ?q0"
    by (simp add: MPMC_Queue_ctor_def std_allocator_def MAX_SIZE_T_def)
  from single_slot_round_trips [of id "0::int" 0 ?n 7] obtain d t where
    r: "run id (fresh ?q0 0) (concat (replicate ?n [Push 7, Pop]))
      = Some \<lparr>queue = \<lparr>capacity_m = 1, buffer_m = [\<lparr>data_m = d, turn = of_nat (2 * ?n)\<rparr>],
                     tail_m = of_nat ?n, head_m = of_nat ?n\<rparr>,
           out = t, pushed = replicate ?n 7, popped = replicate ?n 7\<rparr>"
    unfolding fresh_def by blast
  have w: "(of_nat ?n :: 64 word) = - 1" "(of_nat (2 * ?n) :: 64 word) = - 2" by simp_all
  let ?c = "\<lparr>queue = \<lparr>capacity_m = 1, buffer_m = [\<lparr>data_m = 7::int, turn = - 1\<rparr>],
                     tail_m = - 1, head_m = 0\<rparr>,
           out = t, pushed = replicate ?n 7 @ [7], popped = replicate ?n 7\<rparr>"
  have "run id (fresh ?q0 0) (concat (replicate ?n [Push 7, Pop]) @ [Push 7]) = Some ?c"
    unfolding run_append r w
    by (simp add: produced_def push_def emplace_eq writable_def queue_turn_def publish_fields)
  moreover have "size_queue (queue ?c) = 0"
    by (simp add: size_queue_def MAX_SIZE_T_def abs_ptrdiff_def)
  ultimately show ?thesis using a
    by (intro exI [of _ ?q0] exI [of _ ?c]) (simp add: MAX_SIZE_T_def)
qed

section \<open>What every run keeps true\<close>

lemma word_of_nat_inj64:
  "n < 2 ^ 64 \<Longrightarrow> m < 2 ^ 64 \<Longrightarrow> ((of_nat n :: 64 word) = of_nat m) = (n = m)"
  by (simp add: word_of_nat_eq_iff take_bit_eq_mod)

lemma window_exists:
  fixes C :: nat
  assumes "0 < C" "r < C"
  shows "\<exists>p. T \<le> p \<and> p < T + C \<and> p mod C = r"
proof -
  define x where "x = (r + C - T mod C) mod C"
  have "T mod C < C" using assms by simp
  have "(T + x) mod C = (T + (r + C - T mod C)) mod C"
    unfolding x_def by (rule mod_add_right_eq)
  also have "T + (r + C - T mod C) = C * (T div C) + (T mod C + (r + C - T mod C))"
    by simp
  also have "T mod C + (r + C - T mod C) = r + C"
    using \<open>T mod C < C\<close> by simp
  also have "(C * (T div C) + (r + C)) mod C = r"
    using assms by simp
  finally have "(T + x) mod C = r" .
  moreover have "x < C" unfolding x_def using assms by simp
  ultimately show ?thesis by (intro exI [of _ "T + x"]) simp
qed

lemma consistent_cap: "consistent c \<Longrightarrow> 1 \<le> unat (capacity_m (queue c))"
  by (simp add: consistent_def Let_def)

lemma consistent_len: "consistent c \<Longrightarrow> length (buffer_m (queue c)) = unat (capacity_m (queue c))"
  by (simp add: consistent_def Let_def)

lemma consistent_bounds:
  "consistent c \<Longrightarrow> length (popped c) \<le> length (pushed c) \<and>
     length (pushed c) \<le> length (popped c) + unat (capacity_m (queue c))"
  by (simp add: consistent_def Let_def)

lemma consistent_regime:
  "consistent c \<Longrightarrow> unat (capacity_m (queue c)) \<le> 2 \<or> length (pushed c) \<le> 2 ^ 64"
  by (simp add: consistent_def Let_def)

lemma consistent_head: "consistent c \<Longrightarrow> head_m (queue c) = of_nat (length (pushed c))"
  by (simp add: consistent_def Let_def)

lemma consistent_tail: "consistent c \<Longrightarrow> tail_m (queue c) = of_nat (length (popped c))"
  by (simp add: consistent_def Let_def)

lemma consistent_popped: "consistent c \<Longrightarrow> popped c = take (length (popped c)) (pushed c)"
  by (simp add: consistent_def Let_def)

lemma consistent_turn:
  "consistent c \<Longrightarrow> length (popped c) \<le> p \<Longrightarrow>
   p < length (popped c) + unat (capacity_m (queue c)) \<Longrightarrow>
   turn (buffer_m (queue c) ! (p mod unat (capacity_m (queue c)))) =
     of_nat (2 * (p div unat (capacity_m (queue c))) + (if p < length (pushed c) then 1 else 0))"
  by (simp add: consistent_def Let_def)

lemma consistent_data:
  "consistent c \<Longrightarrow> length (popped c) \<le> p \<Longrightarrow> p < length (pushed c) \<Longrightarrow>
   data_m (buffer_m (queue c) ! (p mod unat (capacity_m (queue c)))) = pushed c ! p"
proof -
  assume c: "consistent c" and p: "length (popped c) \<le> p" "p < length (pushed c)"
  from consistent_bounds [OF c] p
  have "p < length (popped c) + unat (capacity_m (queue c))" by simp
  with c p show ?thesis by (simp add: consistent_def Let_def)
qed

text \<open>With a capacity of 3 or more, once \<open>2 ^ 64\<close> values have been accepted the slot of
  position 0 is in a round no counter value asks for.\<close>

lemma stuck_slot:
  assumes c: "consistent c" and big: "3 \<le> unat (capacity_m (queue c))"
    and H: "length (pushed c) = 2 ^ 64"
  shows "\<exists>n. turn (buffer_m (queue c) ! 0) = of_nat n \<and> 2 \<le> n \<and> n < 2 ^ 64"
proof -
  let ?C = "unat (capacity_m (queue c))"
  let ?T = "length (popped c)"
  have C: "0 < ?C" "?C < 2 ^ 64" using big unsigned_less [of "capacity_m (queue c)"] by simp_all
  from window_exists [of ?C 0 ?T] C obtain p where
    p: "?T \<le> p" "p < ?T + ?C" "p mod ?C = 0" by auto
  from consistent_bounds [OF c] H have T: "2 ^ 64 \<le> ?T + ?C" "?T \<le> 2 ^ 64" by simp_all
  define n where "n = 2 * (p div ?C) + (if p < length (pushed c) then 1 else 0)"
  have "turn (buffer_m (queue c) ! 0) = of_nat n"
    using consistent_turn [OF c p(1) p(2)] p(3) by (simp add: n_def)
  moreover have "2 \<le> n"
  proof -
    from T p C have "0 < p" by arith
    with p(3) have "?C \<le> p" by (metis dvd_imp_le mod_0_imp_dvd)
    then have "1 \<le> p div ?C" using C by (simp add: Suc_le_eq div_greater_zero_iff)
    then show ?thesis by (simp add: n_def)
  qed
  moreover have "n < 2 ^ 64"
  proof -
    have "3 * (2 ^ 63 - 1) \<le> ?C * (2 ^ 63 - 1)" using big by (rule mult_le_mono1)
    then have "2 ^ 64 + ?C \<le> 2 ^ 63 * ?C" by (simp add: algebra_simps)
    with p T have "p < 2 ^ 63 * ?C" by arith
    then have "p div ?C < 2 ^ 63" using C by (simp add: div_less_iff_less_mult)
    then show ?thesis by (simp add: n_def)
  qed
  ultimately show ?thesis by blast
qed

lemma consistentI:
  assumes "1 \<le> unat (capacity_m (queue c))"
    and "length (buffer_m (queue c)) = unat (capacity_m (queue c))"
    and "length (popped c) \<le> length (pushed c)"
    and "length (pushed c) \<le> length (popped c) + unat (capacity_m (queue c))"
    and "unat (capacity_m (queue c)) \<le> 2 \<or> length (pushed c) \<le> 2 ^ 64"
    and "head_m (queue c) = of_nat (length (pushed c))"
    and "tail_m (queue c) = of_nat (length (popped c))"
    and "popped c = take (length (popped c)) (pushed c)"
    and "\<And>p. length (popped c) \<le> p \<Longrightarrow> p < length (popped c) + unat (capacity_m (queue c)) \<Longrightarrow>
           turn (buffer_m (queue c) ! (p mod unat (capacity_m (queue c)))) =
             of_nat (2 * (p div unat (capacity_m (queue c))) + (if p < length (pushed c) then 1 else 0))"
    and "\<And>p. length (popped c) \<le> p \<Longrightarrow> p < length (popped c) + unat (capacity_m (queue c)) \<Longrightarrow>
           p < length (pushed c) \<Longrightarrow>
           data_m (buffer_m (queue c) ! (p mod unat (capacity_m (queue c)))) = pushed c ! p"
  shows "consistent c"
  using assms unfolding consistent_def Let_def by blast

lemma next_round: "0 < (C::nat) \<Longrightarrow> (T + C) div C = Suc (T div C)"
  by (simp add: div_add_self2)

lemma writable_iff:
  assumes c: "consistent c"
  shows "writable (queue c) (head_m (queue c)) =
     (length (pushed c) < length (popped c) + unat (capacity_m (queue c)) \<and>
      (unat (capacity_m (queue c)) \<le> 2 \<or> length (pushed c) < 2 ^ 64))"
proof -
  let ?q = "queue c"
  let ?cap = "capacity_m ?q"
  let ?C = "unat ?cap"
  let ?H = "length (pushed c)"
  let ?T = "length (popped c)"
  note cap = consistent_cap [OF c]
  note bounds = consistent_bounds [OF c]
  note head = consistent_head [OF c]
  show ?thesis
  proof (cases "?C \<le> 2 \<or> ?H < 2 ^ 64")
    case True
    have idx: "unat ((of_nat ?H :: 64 word) mod ?cap) = ?H mod ?C"
      using cap True by (rule pos_index)
    have exp: "(of_nat ?H :: 64 word) div ?cap * 2 = of_nat (2 * (?H div ?C))"
      using cap True by (rule pos_turn)
    have w: "writable ?q (head_m ?q) = (of_nat (2 * (?H div ?C)) = turn (buffer_m ?q ! (?H mod ?C)))"
      unfolding writable_def queue_turn_def head idx exp ..
    show ?thesis
    proof (cases "?H < ?T + ?C")
      case True
      with bounds have "turn (buffer_m ?q ! (?H mod ?C)) = of_nat (2 * (?H div ?C) + 0)"
        using consistent_turn [OF c, of ?H] by simp
      with w True \<open>?C \<le> 2 \<or> ?H < 2 ^ 64\<close> show ?thesis by simp
    next
      case False
      with bounds have H: "?H = ?T + ?C" by simp
      with cap have "?T < ?H" by simp
      then have t: "turn (buffer_m ?q ! (?T mod ?C)) = of_nat (2 * (?T div ?C) + 1)"
        using consistent_turn [OF c, of ?T] cap by simp
      from cap have "0 < ?C" by simp
      then have "?H mod ?C = ?T mod ?C" "?H div ?C = Suc (?T div ?C)"
        unfolding H by (simp_all only: next_round mod_add_self2)
      then have "writable ?q (head_m ?q) =
          ((of_nat (Suc (2 * (?T div ?C) + 1)) :: 64 word) = of_nat (2 * (?T div ?C) + 1))"
        using w t by simp
      then have "\<not> writable ?q (head_m ?q)"
        using word_succ_neq [of "2 * (?T div ?C) + 1"] by blast
      with False show ?thesis by simp
    qed
  next
    case False
    with consistent_regime [OF c] have big: "3 \<le> ?C" and H: "?H = 2 ^ 64" by simp_all
    from stuck_slot [OF c big H] obtain n where
      n: "turn (buffer_m ?q ! 0) = of_nat n" "2 \<le> n" "n < 2 ^ 64" by blast
    have "head_m ?q = 0" using head H by simp
    then have "writable ?q (head_m ?q) = ((0 :: 64 word) = of_nat n)"
      by (simp add: writable_def queue_turn_def n)
    moreover have "(of_nat n :: 64 word) \<noteq> 0"
      using n by (intro word_of_nat_nonzero) simp_all
    ultimately have "\<not> writable ?q (head_m ?q)" by simp
    with False show ?thesis by simp
  qed
qed

lemma readable_iff:
  assumes c: "consistent c"
  shows "readable (queue c) (tail_m (queue c)) = (length (popped c) < length (pushed c))"
proof -
  let ?q = "queue c"
  let ?cap = "capacity_m ?q"
  let ?C = "unat ?cap"
  let ?H = "length (pushed c)"
  let ?T = "length (popped c)"
  note cap = consistent_cap [OF c]
  note bounds = consistent_bounds [OF c]
  note tail = consistent_tail [OF c]
  show ?thesis
  proof (cases "?C \<le> 2 \<or> ?T < 2 ^ 64")
    case True
    have idx: "unat ((of_nat ?T :: 64 word) mod ?cap) = ?T mod ?C"
      using cap True by (rule pos_index)
    have exp: "(of_nat ?T :: 64 word) div ?cap * 2 = of_nat (2 * (?T div ?C))"
      using cap True by (rule pos_turn)
    have r: "readable ?q (tail_m ?q) =
        (of_nat (2 * (?T div ?C)) + 1 = turn (buffer_m ?q ! (?T mod ?C)))"
      unfolding readable_def queue_turn_def tail idx exp ..
    have t: "turn (buffer_m ?q ! (?T mod ?C)) =
        of_nat (2 * (?T div ?C) + (if ?T < ?H then 1 else 0))"
      using consistent_turn [OF c, of ?T] cap by simp
    show ?thesis
    proof (cases "?T < ?H")
      case True
      with r t show ?thesis by simp
    next
      case False
      with r t have "readable ?q (tail_m ?q) =
          ((of_nat (Suc (2 * (?T div ?C))) :: 64 word) = of_nat (2 * (?T div ?C)))"
        by simp
      then have "\<not> readable ?q (tail_m ?q)"
        using word_succ_neq [of "2 * (?T div ?C)"] by blast
      with False show ?thesis by simp
    qed
  next
    case False
    with consistent_regime [OF c] bounds
    have big: "3 \<le> ?C" and H: "?H = 2 ^ 64" and T: "?T = 2 ^ 64" by simp_all
    from stuck_slot [OF c big H] obtain n where
      n: "turn (buffer_m ?q ! 0) = of_nat n" "2 \<le> n" "n < 2 ^ 64" by blast
    have "tail_m ?q = 0" using tail T by simp
    then have "readable ?q (tail_m ?q) = ((of_nat 1 :: 64 word) = of_nat n)"
      by (simp add: readable_def queue_turn_def n)
    moreover have "((of_nat 1 :: 64 word) = of_nat n) = (1 = n)"
      using n by (intro word_of_nat_inj64) simp_all
    ultimately have "\<not> readable ?q (tail_m ?q)" using n by simp
    with H T show ?thesis by simp
  qed
qed

subsection \<open>A value is accepted, a value is returned\<close>

lemma consistent_publish:
  assumes c: "consistent c" and w: "writable (queue c) (head_m (queue c))"
  shows "consistent (c\<lparr>queue := publish ((queue c)\<lparr>head_m := head_m (queue c) + 1\<rparr>)
                                 (head_m (queue c)) v,
                      pushed := pushed c @ [v]\<rparr>)"
proof -
  let ?q = "queue c"
  let ?cap = "capacity_m ?q"
  let ?C = "unat ?cap"
  let ?H = "length (pushed c)"
  let ?T = "length (popped c)"
  let ?q' = "publish (?q\<lparr>head_m := head_m ?q + 1\<rparr>) (head_m ?q) v"
  note cap = consistent_cap [OF c]
  note len = consistent_len [OF c]
  note bounds = consistent_bounds [OF c]
  note head = consistent_head [OF c]
  from w writable_iff [OF c]
  have room: "?H < ?T + ?C" and regime: "?C \<le> 2 \<or> ?H < 2 ^ 64" by simp_all
  have idx: "unat ((of_nat ?H :: 64 word) mod ?cap) = ?H mod ?C"
    using cap regime by (rule pos_index)
  have exp: "(of_nat ?H :: 64 word) div ?cap * 2 = of_nat (2 * (?H div ?C))"
    using cap regime by (rule pos_turn)
  have cap': "capacity_m ?q' = ?cap" by (simp add: publish_fields)
  have head': "head_m ?q' = of_nat (Suc ?H)" by (simp add: publish_fields head)
  have tail': "tail_m ?q' = of_nat ?T" by (simp add: publish_fields consistent_tail [OF c])
  have exp': "(of_nat ?H :: 64 word) div ?cap * 2 + 1 = of_nat (2 * (?H div ?C) + 1)"
    unfolding exp by simp
  have "buffer_m ?q' =
      (buffer_m ?q)[unat ((of_nat ?H :: 64 word) mod ?cap) :=
         \<lparr>data_m = v, turn = (of_nat ?H :: 64 word) div ?cap * 2 + 1\<rparr>]"
    by (simp add: publish_fields head)
  then have buf': "buffer_m ?q' =
      (buffer_m ?q)[?H mod ?C := \<lparr>data_m = v, turn = of_nat (2 * (?H div ?C) + 1)\<rparr>]"
    by (simp only: idx exp')
  have inside: "?H mod ?C < length (buffer_m ?q)" using cap len by simp
  have new: "buffer_m ?q' ! (?H mod ?C) = \<lparr>data_m = v, turn = of_nat (2 * (?H div ?C) + 1)\<rparr>"
    unfolding buf' using inside by (rule nth_list_update_eq)
  have old: "buffer_m ?q' ! (p mod ?C) = buffer_m ?q ! (p mod ?C)"
    if "?T \<le> p" "p < ?T + ?C" "p \<noteq> ?H" for p
  proof -
    have "?H mod ?C \<noteq> p mod ?C"
      using window_unique [of ?T ?H ?C p] that bounds room by blast
    then show ?thesis unfolding buf' by (rule nth_list_update_neq)
  qed
  show ?thesis
  proof (rule consistentI)
    fix p
    assume "length (popped (c\<lparr>queue := ?q', pushed := pushed c @ [v]\<rparr>)) \<le> p"
      and "p < length (popped (c\<lparr>queue := ?q', pushed := pushed c @ [v]\<rparr>))
             + unat (capacity_m (queue (c\<lparr>queue := ?q', pushed := pushed c @ [v]\<rparr>)))"
    then have p: "?T \<le> p" "p < ?T + ?C" by (simp_all add: cap')
    show "turn (buffer_m (queue (c\<lparr>queue := ?q', pushed := pushed c @ [v]\<rparr>)) !
              (p mod unat (capacity_m (queue (c\<lparr>queue := ?q', pushed := pushed c @ [v]\<rparr>))))) =
          of_nat (2 * (p div unat (capacity_m (queue (c\<lparr>queue := ?q', pushed := pushed c @ [v]\<rparr>)))) +
            (if p < length (pushed (c\<lparr>queue := ?q', pushed := pushed c @ [v]\<rparr>)) then 1 else 0))"
    proof (cases "p = ?H")
      case True
      then show ?thesis by (simp add: cap' new)
    next
      case False
      with p show ?thesis
        using consistent_turn [OF c p] by (simp add: cap' old less_Suc_eq)
    qed
    assume "p < length (pushed (c\<lparr>queue := ?q', pushed := pushed c @ [v]\<rparr>))"
    then have "p \<le> ?H" by simp
    show "data_m (buffer_m (queue (c\<lparr>queue := ?q', pushed := pushed c @ [v]\<rparr>)) !
              (p mod unat (capacity_m (queue (c\<lparr>queue := ?q', pushed := pushed c @ [v]\<rparr>))))) =
          pushed (c\<lparr>queue := ?q', pushed := pushed c @ [v]\<rparr>) ! p"
    proof (cases "p = ?H")
      case True
      then show ?thesis by (simp add: cap' new)
    next
      case False
      with \<open>p \<le> ?H\<close> have "p < ?H" by simp
      with p False show ?thesis
        using consistent_data [OF c p(1)] by (simp add: cap' old nth_append)
    qed
  next
    show "unat (capacity_m (queue (c\<lparr>queue := ?q', pushed := pushed c @ [v]\<rparr>))) \<le> 2 \<or>
          length (pushed (c\<lparr>queue := ?q', pushed := pushed c @ [v]\<rparr>)) \<le> 2 ^ 64"
      using regime by (auto simp: cap')
  qed (use cap len bounds room head' tail' consistent_popped [OF c] in
        \<open>simp_all add: cap' buf'\<close>)
qed

lemma consistent_release:
  assumes c: "consistent c" and r: "readable (queue c) (tail_m (queue c))"
  shows "consistent (c\<lparr>queue := fst (release mv ((queue c)\<lparr>tail_m := tail_m (queue c) + 1\<rparr>)
                                       (tail_m (queue c))),
                      out := snd (release mv ((queue c)\<lparr>tail_m := tail_m (queue c) + 1\<rparr>)
                                       (tail_m (queue c))),
                      popped := popped c
                        @ [snd (release mv ((queue c)\<lparr>tail_m := tail_m (queue c) + 1\<rparr>)
                                       (tail_m (queue c)))]\<rparr>)"
    and "snd (release mv ((queue c)\<lparr>tail_m := tail_m (queue c) + 1\<rparr>) (tail_m (queue c)))
          = pushed c ! length (popped c)"
proof -
  let ?q = "queue c"
  let ?cap = "capacity_m ?q"
  let ?C = "unat ?cap"
  let ?H = "length (pushed c)"
  let ?T = "length (popped c)"
  let ?r = "release mv (?q\<lparr>tail_m := tail_m ?q + 1\<rparr>) (tail_m ?q)"
  let ?q' = "fst ?r"
  let ?x = "snd ?r"
  let ?c' = "c\<lparr>queue := ?q', out := ?x, popped := popped c @ [?x]\<rparr>"
  note cap = consistent_cap [OF c]
  note len = consistent_len [OF c]
  note bounds = consistent_bounds [OF c]
  note tail = consistent_tail [OF c]
  from r readable_iff [OF c] have some: "?T < ?H" by simp
  have regime: "?C \<le> 2 \<or> ?T < 2 ^ 64"
    using consistent_regime [OF c] some by auto
  have idx: "unat ((of_nat ?T :: 64 word) mod ?cap) = ?T mod ?C"
    using cap regime by (rule pos_index)
  have exp: "(of_nat ?T :: 64 word) div ?cap * 2 = of_nat (2 * (?T div ?C))"
    using cap regime by (rule pos_turn)
  have "0 < ?C" using cap by simp
  have cap': "capacity_m ?q' = ?cap" by (simp add: release_fields)
  have head': "head_m ?q' = of_nat ?H" by (simp add: release_fields consistent_head [OF c])
  have tail': "tail_m ?q' = of_nat (Suc ?T)" by (simp add: release_fields tail)
  have x: "?x = pushed c ! ?T"
    using consistent_data [OF c le_refl some] idx by (simp add: release_fields tail)
  have exp': "(of_nat ?T :: 64 word) div ?cap * 2 + 2 = of_nat (2 * Suc (?T div ?C))"
    unfolding exp by simp
  have "buffer_m ?q' =
      (buffer_m ?q)[unat ((of_nat ?T :: 64 word) mod ?cap) :=
         \<lparr>data_m = mv (data_m (buffer_m ?q ! unat ((of_nat ?T :: 64 word) mod ?cap))),
          turn = (of_nat ?T :: 64 word) div ?cap * 2 + 2\<rparr>]"
    by (simp add: release_fields tail)
  then have buf': "buffer_m ?q' =
      (buffer_m ?q)[?T mod ?C := \<lparr>data_m = mv (data_m (buffer_m ?q ! (?T mod ?C))),
                                  turn = of_nat (2 * Suc (?T div ?C))\<rparr>]"
    by (simp only: idx exp')
  have inside: "?T mod ?C < length (buffer_m ?q)" using cap len by simp
  have new: "buffer_m ?q' ! (?T mod ?C) =
      \<lparr>data_m = mv (data_m (buffer_m ?q ! (?T mod ?C))), turn = of_nat (2 * Suc (?T div ?C))\<rparr>"
    unfolding buf' using inside by (rule nth_list_update_eq)
  have old: "buffer_m ?q' ! (p mod ?C) = buffer_m ?q ! (p mod ?C)"
    if "?T \<le> p" "p < ?T + ?C" "p \<noteq> ?T" for p
  proof -
    have "?T mod ?C \<noteq> p mod ?C"
      using window_unique [of ?T ?T ?C p] that \<open>0 < ?C\<close> by auto
    then show ?thesis unfolding buf' by (rule nth_list_update_neq)
  qed
  have popped': "popped c @ [?x] = take (Suc ?T) (pushed c)"
    using consistent_popped [OF c] some x by (simp add: take_Suc_conv_app_nth)
  show "?x = pushed c ! ?T" by (rule x)
  show "consistent ?c'"
  proof (rule consistentI)
    fix p
    assume "length (popped ?c') \<le> p" and "p < length (popped ?c') + unat (capacity_m (queue ?c'))"
    then have p: "Suc ?T \<le> p" "p < Suc ?T + ?C" by (simp_all add: cap')
    show "turn (buffer_m (queue ?c') ! (p mod unat (capacity_m (queue ?c')))) =
          of_nat (2 * (p div unat (capacity_m (queue ?c'))) +
            (if p < length (pushed ?c') then 1 else 0))"
    proof (cases "p = ?T + ?C")
      case True
      have "p mod ?C = ?T mod ?C" "p div ?C = Suc (?T div ?C)"
        unfolding True using \<open>0 < ?C\<close> by (simp_all only: next_round mod_add_self2)
      moreover have "\<not> p < ?H" using True bounds by simp
      ultimately show ?thesis by (simp add: cap' new)
    next
      case False
      with p have q: "?T \<le> p" "p < ?T + ?C" "p \<noteq> ?T" by simp_all
      show ?thesis using consistent_turn [OF c q(1) q(2)] by (simp add: cap' old [OF q])
    qed
    assume "p < length (pushed ?c')"
    then have pH: "p < ?H" by simp
    with p bounds have q: "?T \<le> p" "p < ?T + ?C" "p \<noteq> ?T" by simp_all
    show "data_m (buffer_m (queue ?c') ! (p mod unat (capacity_m (queue ?c')))) = pushed ?c' ! p"
      using consistent_data [OF c q(1) pH] by (simp add: cap' old [OF q])
  next
    have l: "length (popped ?c') = Suc ?T" by simp
    have e: "popped ?c' = take (Suc ?T) (pushed ?c')" using popped' by simp
    show "popped ?c' = take (length (popped ?c')) (pushed ?c')" by (subst l) (rule e)
  qed (use cap len bounds some consistent_regime [OF c] head' tail' in
        \<open>simp_all add: cap' buf'\<close>)
qed

subsection \<open>Runs from the constructed queue\<close>

lemma consistent_fresh:
  assumes "MPMC_Queue_ctor allocate dflt requested = Inr q0"
  shows "consistent (fresh q0 t)"
proof -
  from assms have r: "\<not> requested < 1"
    and q0: "q0 = \<lparr>capacity_m = (if requested = MAX_SIZE_T then MAX_SIZE_T - 1 else requested),
                   buffer_m = replicate
                     (unat (if requested = MAX_SIZE_T then MAX_SIZE_T - 1 else requested))
                     \<lparr>data_m = dflt, turn = 0\<rparr>,
                   tail_m = 0, head_m = 0\<rparr>"
    by (auto simp: MPMC_Queue_ctor_def Let_def split: if_splits)
  have "(if requested = MAX_SIZE_T then MAX_SIZE_T - 1 else requested) \<noteq> 0"
    using r by (auto simp: MAX_SIZE_T_def)
  then have pos: "1 \<le> unat (capacity_m q0)"
    unfolding q0 by (simp add: unat_gt_0 Suc_le_eq)
  show ?thesis
  proof (rule consistentI)
    show "1 \<le> unat (capacity_m (queue (fresh q0 t)))" using pos by (simp add: fresh_def)
    show "length (buffer_m (queue (fresh q0 t))) = unat (capacity_m (queue (fresh q0 t)))"
      by (simp add: fresh_def q0)
    fix p
    assume "p < length (popped (fresh q0 t)) + unat (capacity_m (queue (fresh q0 t)))"
    then have p: "p < unat (capacity_m q0)" by (simp add: fresh_def)
    then have "buffer_m q0 ! p = \<lparr>data_m = dflt, turn = 0\<rparr>"
      by (simp add: q0 split: if_splits)
    with p show "turn (buffer_m (queue (fresh q0 t)) ! (p mod unat (capacity_m (queue (fresh q0 t))))) =
          of_nat (2 * (p div unat (capacity_m (queue (fresh q0 t)))) +
            (if p < length (pushed (fresh q0 t)) then 1 else 0))"
      by (simp add: fresh_def)
  qed (simp_all add: fresh_def q0)
qed

lemma consistent_produced:
  assumes c: "consistent c" and e: "emplace (queue c) v = Some q'"
  shows "consistent (c\<lparr>queue := q', pushed := pushed c @ [v]\<rparr>)"
proof -
  from e have w: "writable (queue c) (head_m (queue c))"
    and q': "q' = publish ((queue c)\<lparr>head_m := head_m (queue c) + 1\<rparr>) (head_m (queue c)) v"
    by (auto simp: emplace_eq split: if_splits)
  show ?thesis unfolding q' using c w by (rule consistent_publish)
qed

lemma consistent_try_produced:
  assumes c: "consistent c"
  shows "consistent (c\<lparr>queue := snd (try_emplace (queue c) v),
             pushed := (if fst (try_emplace (queue c) v) then pushed c @ [v] else pushed c)\<rparr>)"
proof (cases "writable (queue c) (head_m (queue c))")
  case True
  then show ?thesis using consistent_publish [OF c True, of v] by (simp add: try_emplace_eq)
next
  case False
  then show ?thesis using c by (simp add: try_emplace_eq)
qed

lemma consistent_consumed:
  assumes c: "consistent c" and e: "pop mv (queue c) (out c) = Some (q', x)"
  shows "consistent (c\<lparr>queue := q', out := x, popped := popped c @ [x]\<rparr>)"
proof -
  from e have r: "readable (queue c) (tail_m (queue c))"
    and q': "q' = fst (release mv ((queue c)\<lparr>tail_m := tail_m (queue c) + 1\<rparr>) (tail_m (queue c)))"
    and x: "x = snd (release mv ((queue c)\<lparr>tail_m := tail_m (queue c) + 1\<rparr>) (tail_m (queue c)))"
    by (auto simp: pop_eq split: if_splits)
  show ?thesis unfolding q' x using c r by (rule consistent_release(1))
qed

lemma consistent_try_consumed:
  assumes c: "consistent c" and e: "try_pop mv (queue c) (out c) = (ok, q', x)"
  shows "consistent (c\<lparr>queue := q', out := x,
                      popped := (if ok then popped c @ [x] else popped c)\<rparr>)"
proof (cases "readable (queue c) (tail_m (queue c))")
  case True
  with e have "ok"
    and q': "q' = fst (release mv ((queue c)\<lparr>tail_m := tail_m (queue c) + 1\<rparr>) (tail_m (queue c)))"
    and x: "x = snd (release mv ((queue c)\<lparr>tail_m := tail_m (queue c) + 1\<rparr>) (tail_m (queue c)))"
    by (auto simp: try_pop_eq)
  show ?thesis unfolding q' x using consistent_release(1) [OF c True, of mv] \<open>ok\<close> by simp
next
  case False
  with e have "\<not> ok" "q' = queue c" "x = out c" by (auto simp: try_pop_eq)
  then show ?thesis using c by simp
qed

lemma consistent_step:
  assumes c: "consistent c" and s: "call_step mv c x = Some c'"
  shows "consistent c'"
proof (cases x)
  case (Emplace v)
  with s show ?thesis
    by (auto simp: produced_def split: option.splits intro: consistent_produced [OF c])
next
  case (Push v)
  with s show ?thesis
    by (auto simp: produced_def push_def split: option.splits intro: consistent_produced [OF c])
next
  case (Try_Emplace v)
  with s show ?thesis using consistent_try_produced [OF c, of v]
    by (auto simp: try_produced_def split_beta)
next
  case (Try_Push v)
  with s show ?thesis using consistent_try_produced [OF c, of v]
    by (auto simp: try_produced_def try_push_def split_beta)
next
  case Pop
  with s show ?thesis
    by (auto split: option.splits intro: consistent_consumed [OF c])
next
  case Try_Pop
  with s show ?thesis
    by (auto split: prod.splits intro: consistent_try_consumed [OF c])
qed

lemma consistent_run: "consistent c \<Longrightarrow> run mv c xs = Some c' \<Longrightarrow> consistent c'"
proof (induction xs arbitrary: c)
  case Nil
  then show ?case by simp
next
  case (Cons x xs)
  then show ?case by (auto split: option.splits dest: consistent_step)
qed

lemma step_pushed:
  "call_step mv c x = Some c' \<Longrightarrow> blocking_producers [x] \<Longrightarrow> pushed c' = pushed c @ passed [x]"
  by (cases x)
     (auto simp: produced_def blocking_producers_def passed_def split_beta
        split: option.splits if_splits)

lemma run_pushed:
  "run mv c xs = Some c' \<Longrightarrow> blocking_producers xs \<Longrightarrow> pushed c' = pushed c @ passed xs"
proof (induction xs arbitrary: c)
  case Nil
  then show ?case by (simp add: passed_def)
next
  case (Cons x xs)
  from Cons.prems obtain c1 where c1: "call_step mv c x = Some c1" "run mv c1 xs = Some c'"
    by (auto split: option.splits)
  from Cons.prems have b: "blocking_producers [x]" "blocking_producers xs"
    by (simp_all add: blocking_producers_def)
  from step_pushed [OF c1(1) b(1)] Cons.IH [OF c1(2) b(2)]
  show ?case by (simp add: passed_def)
qed

lemma occupancy:
  assumes c: "consistent c"
  shows "unat (head_m (queue c) - tail_m (queue c)) = length (pushed c) - length (popped c)"
proof -
  let ?H = "length (pushed c)"
  let ?T = "length (popped c)"
  note bounds = consistent_bounds [OF c]
  have "head_m (queue c) - tail_m (queue c) = of_nat (?H - ?T)"
    using bounds by (simp add: consistent_head [OF c] consistent_tail [OF c])
  moreover have "unat (capacity_m (queue c)) < 2 ^ 64"
    using unsigned_less [of "capacity_m (queue c)"] by simp
  then have "?H - ?T < 2 ^ 64"
    using bounds by arith
  ultimately show ?thesis by (simp add: unat_of_nat)
qed

lemma full_rejects:
  assumes c: "consistent c"
    and full: "length (pushed c) = length (popped c) + unat (capacity_m (queue c))"
  shows "try_push (queue c) v = (False, queue c)"
proof -
  have "\<not> writable (queue c) (head_m (queue c))"
    using writable_iff [OF c] full by simp
  then show ?thesis by (simp add: try_push_def try_emplace_eq)
qed

subsection \<open>The blocking calls return\<close>

text \<open>A blocking producer returns when the queue is not full (and, for a capacity of 3 or
  more, fewer than \<open>2 ^ 64\<close> values have been accepted); a blocking consumer returns when
  the queue is not empty, with the value at its position.\<close>

lemma emplace_returns:
  assumes c: "consistent c"
    and room: "length (pushed c) < length (popped c) + unat (capacity_m (queue c))"
    and regime: "unat (capacity_m (queue c)) \<le> 2 \<or> length (pushed c) < 2 ^ 64"
  shows "\<exists>q'. emplace (queue c) v = Some q'"
  using writable_iff [OF c] room regime by (simp add: emplace_eq)

lemma pop_returns:
  assumes c: "consistent c" and some: "length (popped c) < length (pushed c)"
  shows "\<exists>q'. pop mv (queue c) t = Some (q', pushed c ! length (popped c))"
proof -
  have r: "readable (queue c) (tail_m (queue c))"
    using readable_iff [OF c] some by simp
  then show ?thesis
    using consistent_release(2) [OF c r, of mv] by (simp add: pop_eq prod_eq_iff)
qed

section \<open>First in, first out\<close>

lemma step_counts:
  assumes c: "consistent c"
  shows "case count_step (unat (capacity_m (queue c))) (length (pushed c), length (popped c)) x of
           None \<Rightarrow> call_step mv c x = None
         | Some n \<Rightarrow>
             (\<exists>c'. call_step mv c x = Some c' \<and> length (pushed c') = fst n
                \<and> length (popped c') = snd n)"
proof -
  have w: "writable (queue c) (head_m (queue c)) =
      has_room (unat (capacity_m (queue c))) (length (pushed c), length (popped c))"
    using writable_iff [OF c] by (simp add: has_room_def)
  have r: "readable (queue c) (tail_m (queue c)) = (length (popped c) < length (pushed c))"
    by (rule readable_iff [OF c])
  show ?thesis
    by (cases x)
       (simp_all add: w r produced_def try_produced_def push_def try_push_def emplace_eq
          try_emplace_eq pop_eq try_pop_eq split_beta)
qed

lemma run_counts:
  assumes "consistent c"
  shows "case count_run (unat (capacity_m (queue c))) (length (pushed c), length (popped c)) xs of
           None \<Rightarrow> run mv c xs = None
         | Some n \<Rightarrow>
             (\<exists>c'. run mv c xs = Some c' \<and> consistent c' \<and> length (pushed c') = fst n
                \<and> length (popped c') = snd n)"
  using assms
proof (induction xs arbitrary: c)
  case Nil
  then show ?case by simp
next
  case (Cons x xs)
  let ?C = "unat (capacity_m (queue c))"
  let ?n = "(length (pushed c), length (popped c))"
  note s = step_counts [OF Cons.prems, where x = x and mv = mv]
  show ?case
  proof (cases "count_step ?C ?n x")
    case None
    with s show ?thesis by simp
  next
    case (Some n)
    with s obtain c' where c': "call_step mv c x = Some c'"
      "length (pushed c') = fst n" "length (popped c') = snd n" by auto
    have cons: "consistent c'" using Cons.prems c'(1) by (rule consistent_step)
    have cap: "unat (capacity_m (queue c')) = ?C"
      using call_step_capacity [OF c'(1)] by simp
    have n: "(length (pushed c'), length (popped c')) = n" using c'(2,3) by simp
    have e: "run mv c (x # xs) = run mv c' xs" by (simp add: c'(1))
    have f: "count_run ?C ?n (x # xs) = count_run ?C n xs" by (simp add: Some)
    show ?thesis unfolding e f using Cons.IH [OF cons] unfolding cap n .
  qed
qed

lemma count_run_append:
  "count_run C n (xs @ ys) =
     (case count_run C n xs of None \<Rightarrow> None | Some n' \<Rightarrow> count_run C n' ys)"
  by (induction xs arbitrary: n) (simp_all split: option.splits)

lemma rounds_counts:
  "1 \<le> C \<Longrightarrow> k + n \<le> 2 ^ 64 \<Longrightarrow>
     count_run C (k, k) (concat (replicate n [Push v, Pop])) = Some (k + n, k + n)"
proof (induction n arbitrary: k)
  case 0
  then show ?case by simp
next
  case (Suc n)
  from Suc.prems have "has_room C (k, k)" by (simp add: has_room_def)
  moreover from Suc.prems have "count_run C (Suc k, Suc k) (concat (replicate n [Push v, Pop]))
      = Some (Suc k + n, Suc k + n)"
    by (intro Suc.IH) simp_all
  ultimately show ?case by simp
qed

lemma replicate_three: "replicate 3 x = [x, x, x]"
  by (simp add: numeral_3_eq_3)

text \<open>C1, as stated, fails: on a queue of capacity 3, \<open>2 ^ 64\<close> rounds of \<open>push\<close> and \<open>pop\<close>
  all return and never pop from an empty queue; the \<open>push\<close> that follows, on the empty
  queue, never returns, so the value passed to it is never returned by a \<open>pop\<close>.\<close>

theorem fifo_after_wraparound_counterexample:
  "MPMC_Queue_ctor (std_allocator 64) (0::int) 3 = Inr \<lparr>capacity_m = 3, buffer_m = [\<lparr>data_m = 0::int, turn = 0\<rparr>, \<lparr>data_m = 0, turn = 0\<rparr>, \<lparr>data_m = 0, turn = 0\<rparr>], tail_m = 0, head_m = 0\<rparr>
   \<and> count_run 3 (0, 0) (concat (replicate (2 ^ 64) [Push (7::int), Pop])) = Some (2 ^ 64, 2 ^ 64)
   \<and> run id (fresh \<lparr>capacity_m = 3, buffer_m = [\<lparr>data_m = 0::int, turn = 0\<rparr>, \<lparr>data_m = 0, turn = 0\<rparr>, \<lparr>data_m = 0, turn = 0\<rparr>], tail_m = 0, head_m = 0\<rparr> 0) (concat (replicate (2 ^ 64) [Push 7, Pop]) @ [Push 7]) = None"
proof -
  let ?q0 = "\<lparr>capacity_m = 3, buffer_m = [\<lparr>data_m = 0::int, turn = 0\<rparr>, \<lparr>data_m = 0, turn = 0\<rparr>, \<lparr>data_m = 0, turn = 0\<rparr>], tail_m = 0, head_m = 0\<rparr>"
  let ?rounds = "concat (replicate (2 ^ 64) [Push (7::int), Pop])"
  have a: "MPMC_Queue_ctor (std_allocator 64) (0::int) 3 = Inr ?q0"
    by (simp add: MPMC_Queue_ctor_def std_allocator_def MAX_SIZE_T_def replicate_three)
  have r: "count_run 3 (0, 0) ?rounds = Some (2 ^ 64, 2 ^ 64)"
    using rounds_counts [of 3 0 "2 ^ 64" "7::int"] by simp
  have "\<not> has_room 3 (2 ^ 64, 2 ^ 64)" by (simp add: has_room_def)
  then have n: "count_run 3 (0, 0) (?rounds @ [Push 7]) = None"
    unfolding count_run_append r by simp
  have c: "consistent (fresh ?q0 0)" using a by (rule consistent_fresh)
  have "unat (capacity_m (queue (fresh ?q0 0))) = 3"
    "length (pushed (fresh ?q0 0)) = 0" "length (popped (fresh ?q0 0)) = 0"
    by (simp_all add: fresh_def)
  with run_counts [OF c, where xs = "?rounds @ [Push 7]" and mv = id] n
  have "run id (fresh ?q0 0) (?rounds @ [Push 7]) = None" by simp
  with a r show ?thesis by blast
qed

text \<open>C1, amended. A single producer and a single consumer make complete calls one after
  the other on a constructed queue. When no \<open>pop\<close> is made on an empty queue, no \<open>push\<close> or
  \<open>emplace\<close> on a full one and, for a capacity of 3 or more, none after \<open>2 ^ 64\<close> values have
  been accepted, every call returns, and the values returned by \<open>pop\<close> and \<open>try_pop\<close> are,
  in the same order, the first of the values accepted: the \<open>k\<close>-th value returned is the
  \<open>k\<close>-th value accepted, and with \<open>push\<close> and \<open>emplace\<close> as producers the values accepted
  are the values passed to them. A list of calls that breaks one of the conditions does
  not return.\<close>

theorem fifo_by_position:
  assumes "MPMC_Queue_ctor allocate dflt requested = Inr q0"
  shows "case count_run (unat (capacity_m q0)) (0, 0) calls of
           None \<Rightarrow> run mv (fresh q0 t) calls = None
         | Some (H, T) \<Rightarrow>
             (\<exists>c. run mv (fresh q0 t) calls = Some c
                \<and> length (pushed c) = H \<and> length (popped c) = T
                \<and> popped c = take T (pushed c)
                \<and> (\<forall>k < T. popped c ! k = pushed c ! k)
                \<and> (blocking_producers calls \<longrightarrow> pushed c = passed calls))"
proof -
  have f: "consistent (fresh q0 t)" using assms by (rule consistent_fresh)
  have z: "unat (capacity_m (queue (fresh q0 t))) = unat (capacity_m q0)"
    "(length (pushed (fresh q0 t)), length (popped (fresh q0 t))) = (0, 0)"
    by (simp_all add: fresh_def)
  note rc = run_counts [OF f, where xs = calls and mv = mv, unfolded z]
  show ?thesis
  proof (cases "count_run (unat (capacity_m q0)) (0, 0) calls")
    case None
    with rc show ?thesis by simp
  next
    case (Some n)
    with rc obtain c where c: "run mv (fresh q0 t) calls = Some c" "consistent c"
      "length (pushed c) = fst n" "length (popped c) = snd n" by auto
    have p: "popped c = take (length (popped c)) (pushed c)"
      using c(2) by (rule consistent_popped)
    have k: "popped c ! k = pushed c ! k" if "k < length (popped c)" for k
      using that by (subst p) simp
    have b: "pushed c = passed calls" if "blocking_producers calls"
      using run_pushed [OF c(1) that] by (simp add: fresh_def)
    have "run mv (fresh q0 t) calls = Some c
        \<and> length (pushed c) = fst n \<and> length (popped c) = snd n
        \<and> popped c = take (snd n) (pushed c)
        \<and> (\<forall>k < snd n. popped c ! k = pushed c ! k)
        \<and> (blocking_producers calls \<longrightarrow> pushed c = passed calls)"
      using c p k b by auto
    then show ?thesis unfolding Some by (cases n) auto
  qed
qed

theorem fifo_by_position_witness:
  "MPMC_Queue_ctor (std_allocator 64) (0::int) 2 = Inr \<lparr>capacity_m = 2, buffer_m = [\<lparr>data_m = 0::int, turn = 0\<rparr>, \<lparr>data_m = 0, turn = 0\<rparr>], tail_m = 0, head_m = 0\<rparr>
   \<and> count_run 2 (0, 0) [Push (1::int), Emplace 2, Pop, Push 3, Try_Pop, Pop] = Some (3, 3)
   \<and> run id (fresh \<lparr>capacity_m = 2, buffer_m = [\<lparr>data_m = 0::int, turn = 0\<rparr>, \<lparr>data_m = 0, turn = 0\<rparr>], tail_m = 0, head_m = 0\<rparr> 0) [Push 1, Emplace 2, Pop, Push 3, Try_Pop, Pop] = Some \<lparr>queue = \<lparr>capacity_m = 2, buffer_m = [\<lparr>data_m = 3::int, turn = 4\<rparr>, \<lparr>data_m = 2, turn = 2\<rparr>], tail_m = 3, head_m = 3\<rparr>, out = 3, pushed = [1, 2, 3], popped = [1, 2, 3]\<rparr>
   \<and> blocking_producers [Push (1::int), Emplace 2, Pop, Push 3, Try_Pop, Pop]
   \<and> passed [Push (1::int), Emplace 2, Pop, Push 3, Try_Pop, Pop] = [1, 2, 3]
   \<and> run id (fresh \<lparr>capacity_m = 2, buffer_m = [\<lparr>data_m = 0::int, turn = 0\<rparr>, \<lparr>data_m = 0, turn = 0\<rparr>], tail_m = 0, head_m = 0\<rparr> 0) [Push 1, Pop, Pop] = None"
proof -
  let ?calls = "[Push (1::int), Emplace 2, Pop, Push 3, Try_Pop, Pop]"
  have a: "MPMC_Queue_ctor (std_allocator 64) (0::int) 2 = Inr \<lparr>capacity_m = 2, buffer_m = [\<lparr>data_m = 0::int, turn = 0\<rparr>, \<lparr>data_m = 0, turn = 0\<rparr>], tail_m = 0, head_m = 0\<rparr>"
    by (simp add: MPMC_Queue_ctor_def std_allocator_def MAX_SIZE_T_def replicate_two)
  have n: "count_run 2 (0, 0) ?calls = Some (3, 3)"
    by (simp add: has_room_def)
  have m: "count_run 2 (0, 0) [Push (1::int), Pop, Pop] = None"
    by (simp add: has_room_def)
  have b: "run id (fresh \<lparr>capacity_m = 2, buffer_m = [\<lparr>data_m = 0::int, turn = 0\<rparr>, \<lparr>data_m = 0, turn = 0\<rparr>], tail_m = 0, head_m = 0\<rparr> 0) ?calls = Some \<lparr>queue = \<lparr>capacity_m = 2, buffer_m = [\<lparr>data_m = 3::int, turn = 4\<rparr>, \<lparr>data_m = 2, turn = 2\<rparr>], tail_m = 3, head_m = 3\<rparr>, out = 3, pushed = [1, 2, 3], popped = [1, 2, 3]\<rparr>"
    by (simp add: fresh_def produced_def push_def emplace_eq pop_eq try_pop_eq writable_def
          readable_def queue_turn_def publish_fields release_fields split_beta)
  have d: "blocking_producers ?calls" "passed ?calls = [1, 2, 3]"
    by (simp_all add: blocking_producers_def passed_def)
  from fifo_by_position [OF a, where calls = "[Push 1, Pop, Pop]" and mv = id and t = 0] m
  have "run id (fresh \<lparr>capacity_m = 2, buffer_m = [\<lparr>data_m = 0::int, turn = 0\<rparr>, \<lparr>data_m = 0, turn = 0\<rparr>], tail_m = 0, head_m = 0\<rparr> 0) [Push 1, Pop, Pop] = None" by simp
  with a n b d show ?thesis by blast
qed

section \<open>Occupancy\<close>

text \<open>C2. In every state a run of calls reaches from a constructed queue, the unsigned
  difference \<open>head - tail\<close> is the number of values in the queue and is at most the
  capacity. It is the capacity exactly when \<open>capacity\<close> more values have been accepted
  than returned; then \<open>try_push\<close> returns false and leaves the queue as it is, and so
  does every \<open>try_push\<close> after it, as long as nothing is popped.\<close>

theorem occupancy_bounded:
  assumes "MPMC_Queue_ctor allocate dflt requested = Inr q0"
    and "run mv (fresh q0 t) calls = Some c"
  shows "head_m (queue c) - tail_m (queue c) \<le> capacity_m (queue c)
       \<and> unat (head_m (queue c) - tail_m (queue c)) = length (pushed c) - length (popped c)
       \<and> (length (pushed c) = length (popped c) + unat (capacity_m (queue c)))
           = (head_m (queue c) - tail_m (queue c) = capacity_m (queue c))
       \<and> (head_m (queue c) - tail_m (queue c) = capacity_m (queue c) \<longrightarrow>
            try_push (queue c) v = (False, queue c)
            \<and> run mv c (map Try_Push vs) = Some c)"
proof -
  have c: "consistent c"
    using consistent_fresh [OF assms(1)] assms(2) by (rule consistent_run)
  note bounds = consistent_bounds [OF c]
  note occ = occupancy [OF c]
  have le: "head_m (queue c) - tail_m (queue c) \<le> capacity_m (queue c)"
    unfolding word_le_nat_alt occ using bounds by arith
  have eq: "(length (pushed c) = length (popped c) + unat (capacity_m (queue c)))
           = (head_m (queue c) - tail_m (queue c) = capacity_m (queue c))"
  proof
    assume "length (pushed c) = length (popped c) + unat (capacity_m (queue c))"
    then have "unat (head_m (queue c) - tail_m (queue c)) = unat (capacity_m (queue c))"
      using occ by simp
    then show "head_m (queue c) - tail_m (queue c) = capacity_m (queue c)"
      by (simp only: word_unat_eq_iff)
  next
    assume "head_m (queue c) - tail_m (queue c) = capacity_m (queue c)"
    then have "unat (capacity_m (queue c)) = length (pushed c) - length (popped c)"
      using occ by simp
    with bounds show "length (pushed c) = length (popped c) + unat (capacity_m (queue c))"
      by simp
  qed
  have rej: "try_push (queue c) w = (False, queue c)"
    if "head_m (queue c) - tail_m (queue c) = capacity_m (queue c)" for w
    using full_rejects [OF c] that eq by blast
  have "run mv c (map Try_Push vs) = Some c"
    if full: "head_m (queue c) - tail_m (queue c) = capacity_m (queue c)"
  proof (induction vs)
    case Nil
    show ?case by simp
  next
    case (Cons w ws)
    have "call_step mv c (Try_Push w) = Some c"
      using rej [OF full, of w] by (simp add: try_produced_def)
    with Cons show ?case by simp
  qed
  with le occ eq rej show ?thesis by blast
qed

theorem occupancy_bounded_witness:
  "MPMC_Queue_ctor (std_allocator 64) (0::int) 1
     = Inr \<lparr>capacity_m = 1, buffer_m = [\<lparr>data_m = 0, turn = 0\<rparr>], tail_m = 0, head_m = 0\<rparr>
   \<and> run id (fresh \<lparr>capacity_m = 1, buffer_m = [\<lparr>data_m = 0, turn = 0\<rparr>], tail_m = 0, head_m = 0\<rparr>
               (0::int)) [Try_Push 1]
     = Some \<lparr>queue = \<lparr>capacity_m = 1, buffer_m = [\<lparr>data_m = 1, turn = 1\<rparr>], tail_m = 0, head_m = 1\<rparr>,
             out = 0, pushed = [1], popped = []\<rparr>
   \<and> try_push \<lparr>capacity_m = 1, buffer_m = [\<lparr>data_m = 1::int, turn = 1\<rparr>], tail_m = 0, head_m = 1\<rparr> 2
     = (False, \<lparr>capacity_m = 1, buffer_m = [\<lparr>data_m = 1, turn = 1\<rparr>], tail_m = 0, head_m = 1\<rparr>)"
proof -
  let ?q0 = "\<lparr>capacity_m = 1, buffer_m = [\<lparr>data_m = 0::int, turn = 0\<rparr>], tail_m = 0, head_m = 0\<rparr>"
  let ?q1 = "\<lparr>capacity_m = 1, buffer_m = [\<lparr>data_m = 1::int, turn = 1\<rparr>], tail_m = 0, head_m = 1\<rparr>"
  let ?c = "\<lparr>queue = ?q1, out = 0::int, pushed = [1], popped = []\<rparr>"
  have a: "MPMC_Queue_ctor (std_allocator 64) (0::int) 1 = Inr ?q0"
    by (simp add: MPMC_Queue_ctor_def std_allocator_def MAX_SIZE_T_def)
  have b: "run id (fresh ?q0 0) [Try_Push 1] = Some ?c"
    by (simp add: fresh_def try_produced_def try_push_def try_emplace_eq writable_def
          queue_turn_def publish_fields)
  from occupancy_bounded [OF a b, of 2 "[]"] a b show ?thesis by simp
qed

end
